theory Spec2Isabelle
  imports Main "HOL-Library.Word"
begin

section \<open>Filecoin claims importer: the ingestion pipeline\<close>

text \<open>
  A shallow embedding of the claims importer (\<^verbatim>\<open>main.go\<close> of the importer
  service): the lenient JSON helpers, \<^verbatim>\<open>claimKey\<close>, \<^verbatim>\<open>hasNonZeroPower\<close>,
  \<^verbatim>\<open>loadActiveProviders\<close>, \<^verbatim>\<open>loadAllClaimKeysFromDB\<close>,
  \<^verbatim>\<open>loadClaimsFromFileFiltered\<close>, \<^verbatim>\<open>insertDiffClaims\<close> and
  \<^verbatim>\<open>runFromTodayDumpOnce\<close>. The collaborators the program calls (the chain node,
  the document store, the file system, the JSON and number-parsing libraries) are not part
  of the program; each is represented by the answers it gives to the program's calls. The
  functions of \<^verbatim>\<open>strconv\<close> and the integer scanner of \<^verbatim>\<open>fmt\<close> are written out, since
  the claims about decimal text and claim identifiers depend on what they accept.
\<close>

subsection \<open>Machine integers and errors\<close>

text \<open>
  Go's \<^verbatim>\<open>int64\<close> and \<^verbatim>\<open>uint64\<close> are both 64-bit words; \<open>sint\<close> reads a word as
  \<^verbatim>\<open>int64\<close>, \<open>unat\<close> as \<^verbatim>\<open>uint64\<close>. The conversions \<^verbatim>\<open>int64(u)\<close> and
  \<^verbatim>\<open>uint64(i)\<close> keep the 64 bits, so they are the identity on words.
\<close>

type_synonym int64 = "64 word"
type_synonym uint64 = "64 word"

datatype error =
    ErrSyntax
  | ErrRange
  | UnmarshalTypeError
  | UnsupportedCID
  | LibError string
  | Wrapped string error

subsection \<open>Decimal text: \<^verbatim>\<open>%d\<close> and \<^verbatim>\<open>strconv\<close>\<close>

definition digit_char :: "nat \<Rightarrow> char" where
  "digit_char d = ''0123456789'' ! d"

function dec_nat :: "nat \<Rightarrow> string" where
  "dec_nat n = (if n < 10 then [digit_char n] else dec_nat (n div 10) @ [digit_char (n mod 10)])"
  by pat_completeness auto
termination
  by (relation "measure id") auto

declare dec_nat.simps [simp del]

text \<open>\<^verbatim>\<open>%d\<close> of a signed integer: a minus sign, then the magnitude.\<close>

definition dec_int :: "int \<Rightarrow> string" where
  "dec_int i = (if i < 0 then CHR ''-'' # dec_nat (nat (- i)) else dec_nat (nat i))"

definition digit_val :: "char \<Rightarrow> nat option" where
  "digit_val c =
     (if (48::nat) \<le> of_char c \<and> of_char c \<le> (57::nat) then Some (of_char c - 48) else None)"

definition maxUint64 :: nat where
  "maxUint64 = 2 ^ 64 - 1"

text \<open>
  \<^verbatim>\<open>strconv.ParseUint(s, 10, 64)\<close>: the empty string and any byte that is not a decimal
  digit are syntax errors (base 10 admits no sign, no prefix and no underscore); a value
  above $2^{64}-1$ is a range error, found at the digit that exceeds it.
\<close>

fun parse_digits :: "nat \<Rightarrow> string \<Rightarrow> error + nat" where
  "parse_digits n [] = Inr n"
| "parse_digits n (c # cs) =
     (case digit_val c of
        None \<Rightarrow> Inl ErrSyntax
      | Some d \<Rightarrow>
          if maxUint64 < n * 10 + d then Inl ErrRange else parse_digits (n * 10 + d) cs)"

definition ParseUint :: "string \<Rightarrow> error + uint64" where
  "ParseUint s =
     (if s = [] then Inl ErrSyntax
      else (case parse_digits 0 s of Inl e \<Rightarrow> Inl e | Inr n \<Rightarrow> Inr (of_nat n)))"

text \<open>
  \<^verbatim>\<open>strconv.ParseInt(s, 10, 64)\<close>: an optional leading \<^verbatim>\<open>+\<close> or \<^verbatim>\<open>-\<close>, then
  \<^verbatim>\<open>ParseUint\<close> on the rest; the magnitude may reach $2^{63}-1$, or $2^{63}$ after a
  minus sign.
\<close>

definition ParseInt :: "string \<Rightarrow> error + int64" where
  "ParseInt s =
     (case s of
        [] \<Rightarrow> Inl ErrSyntax
      | c # cs \<Rightarrow>
          (let neg = (c = CHR ''-'');
               s' = (if c = CHR ''+'' \<or> c = CHR ''-'' then cs else s)
           in case ParseUint s' of
                Inl e \<Rightarrow> Inl e
              | Inr un \<Rightarrow>
                  if \<not> neg \<and> 2 ^ 63 \<le> unat un then Inl ErrRange
                  else if neg \<and> 2 ^ 63 < unat un then Inl ErrRange
                  else Inr (if neg then - un else un)))"

subsection \<open>JSON values and \<^verbatim>\<open>json.Unmarshal\<close>\<close>

text \<open>
  \<^verbatim>\<open>encoding/json\<close> hands an \<^verbatim>\<open>UnmarshalJSON\<close> method the bytes of exactly one JSON
  value, without surrounding white space. The value is kept here in parsed form: a number
  keeps its literal text (as JSON writes numbers), a string its decoded content, an object
  its members in document order. The first byte of the raw text is a double quote exactly when the value is a
  string.
\<close>

datatype json =
    JNull
  | JBool bool
  | JNumber string
  | JString string
  | JArray "json list"
  | JObject "(string \<times> json) list"

fun first_byte_is_quote :: "json \<Rightarrow> bool" where
  "first_byte_is_quote (JString s) = True"
| "first_byte_is_quote v = False"

text \<open>
  \<^verbatim>\<open>json.Unmarshal\<close> into a \<^verbatim>\<open>string\<close>, a \<^verbatim>\<open>map[string]any\<close>, a \<^verbatim>\<open>uint64\<close> and
  an \<^verbatim>\<open>int64\<close>. JSON \<^verbatim>\<open>null\<close> leaves the target at its zero value and is no error; a
  value of the wrong kind is a type error; a number is parsed from its literal with
  \<^verbatim>\<open>ParseUint\<close> or \<^verbatim>\<open>ParseInt\<close> and a literal that does not fit is a type error too.
  In a map a later duplicate member replaces an earlier one.
\<close>

fun unmarshal_string :: "json \<Rightarrow> error + string" where
  "unmarshal_string (JString s) = Inr s"
| "unmarshal_string JNull = Inr []"
| "unmarshal_string v = Inl UnmarshalTypeError"

fun unmarshal_map :: "json \<Rightarrow> error + (string \<rightharpoonup> json)" where
  "unmarshal_map (JObject kvs) = Inr (map_of (rev kvs))"
| "unmarshal_map JNull = Inr Map.empty"
| "unmarshal_map v = Inl UnmarshalTypeError"

fun unmarshal_uint64 :: "json \<Rightarrow> error + uint64" where
  "unmarshal_uint64 (JNumber lit) =
     (case ParseUint lit of Inl e \<Rightarrow> Inl UnmarshalTypeError | Inr x \<Rightarrow> Inr x)"
| "unmarshal_uint64 JNull = Inr 0"
| "unmarshal_uint64 v = Inl UnmarshalTypeError"

fun unmarshal_int64 :: "json \<Rightarrow> error + int64" where
  "unmarshal_int64 (JNumber lit) =
     (case ParseInt lit of Inl e \<Rightarrow> Inl UnmarshalTypeError | Inr x \<Rightarrow> Inr x)"
| "unmarshal_int64 JNull = Inr 0"
| "unmarshal_int64 v = Inl UnmarshalTypeError"

subsection \<open>Lenient JSON helpers\<close>

text \<open>\<^verbatim>\<open>cidOrObj.UnmarshalJSON\<close>: a plain string, or an object with the CID under \<^verbatim>\<open>"/"\<close>.\<close>

definition cidOrObj_UnmarshalJSON :: "json \<Rightarrow> error + string" where
  "cidOrObj_UnmarshalJSON b =
     (if first_byte_is_quote b then
        (case unmarshal_string b of Inl e \<Rightarrow> Inl e | Inr s \<Rightarrow> Inr s)
      else
        (case unmarshal_map b of
           Inl e \<Rightarrow> Inl e
         | Inr m \<Rightarrow>
             (case m ''/'' of
                Some (JString s) \<Rightarrow> Inr s
              | _ \<Rightarrow> Inl UnsupportedCID)))"

text \<open>\<^verbatim>\<open>u64OrStr.UnmarshalJSON\<close>: a number, or a string holding a number.\<close>

definition u64OrStr_UnmarshalJSON :: "json \<Rightarrow> error + uint64" where
  "u64OrStr_UnmarshalJSON b =
     (if \<not> first_byte_is_quote b then
        (case unmarshal_uint64 b of Inl e \<Rightarrow> Inl e | Inr x \<Rightarrow> Inr x)
      else
        (case unmarshal_string b of
           Inl e \<Rightarrow> Inl e
         | Inr s \<Rightarrow> (case ParseUint s of Inl e \<Rightarrow> Inl e | Inr x \<Rightarrow> Inr x)))"

text \<open>\<^verbatim>\<open>i64OrStr.UnmarshalJSON\<close>: the same for \<^verbatim>\<open>int64\<close>.\<close>

definition i64OrStr_UnmarshalJSON :: "json \<Rightarrow> error + int64" where
  "i64OrStr_UnmarshalJSON b =
     (if \<not> first_byte_is_quote b then
        (case unmarshal_int64 b of Inl e \<Rightarrow> Inl e | Inr x \<Rightarrow> Inr x)
      else
        (case unmarshal_string b of
           Inl e \<Rightarrow> Inl e
         | Inr s \<Rightarrow> (case ParseInt s of Inl e \<Rightarrow> Inl e | Inr x \<Rightarrow> Inr x)))"

subsection \<open>The stored document and its business key\<close>

text \<open>
  \<^verbatim>\<open>DBClaim\<close>, the document schema. \<^verbatim>\<open>time.Time\<close> is an instant on the clock, kept as
  a number; \<^verbatim>\<open>Meta\<close> is a \<^verbatim>\<open>map[string]any\<close>, kept as a list of members.
\<close>

type_synonym instant = nat

record DBClaim =
  ClaimID :: int64
  ProviderID :: int64
  ClientID :: int64
  ClientAddr :: string
  DataCID :: string
  Size :: int64
  TermMin :: int64
  TermMax :: int64
  TermStart :: int64
  Sector :: uint64
  MinerAddr :: string
  UpdatedAt :: instant
  Meta :: "(string \<times> json) list"

text \<open>\<^verbatim>\<open>claimKey\<close>: \<^verbatim>\<open>fmt.Sprintf("%d|%s|%d|%d", providerID, dataCID, sector, termStart)\<close>.\<close>

definition claimKey :: "int64 \<Rightarrow> string \<Rightarrow> uint64 \<Rightarrow> int64 \<Rightarrow> string" where
  "claimKey providerID dataCID sector termStart =
     dec_int (sint providerID) @ ''|'' @ dataCID @ ''|'' @ dec_nat (unat sector) @ ''|''
       @ dec_int (sint termStart)"

subsection \<open>The chain node and the active providers\<close>

text \<open>
  An address is either of the ID protocol, carrying the actor id, or of another protocol;
  \<^verbatim>\<open>address.IDFromAddress\<close> yields the id of the former and an error for the latter.
\<close>

datatype address = IDAddress uint64 | KeyAddress string

fun IDFromAddress :: "address \<Rightarrow> error + uint64" where
  "IDFromAddress (IDAddress n) = Inr n"
| "IDFromAddress (KeyAddress s) = Inl (LibError ''cannot get id from non id address'')"

record power_Claim =
  RawBytePower :: int
  QualityAdjPower :: int

record lotusapi_MinerPower =
  MinerPower :: power_Claim
  TotalPower :: power_Claim
  HasMinPower :: bool

text \<open>\<^verbatim>\<open>hasNonZeroPower\<close>; \<open>None\<close> is the nil pointer.\<close>

definition hasNonZeroPower :: "lotusapi_MinerPower option \<Rightarrow> bool" where
  "hasNonZeroPower p =
     (case p of
        None \<Rightarrow> False
      | Some mp \<Rightarrow> RawBytePower (MinerPower mp) > 0 \<or> QualityAdjPower (MinerPower mp) > 0)"

text \<open>
  The four calls the program makes on the node (\<^verbatim>\<open>v1api.FullNode\<close>), each with the answer
  the node gives during one run.
\<close>

type_synonym TipSetKey = nat

record TipSet =
  Key :: TipSetKey

record FullNode =
  ChainHead :: "error + TipSet"
  StateListMiners :: "TipSetKey \<Rightarrow> error + address list"
  StateMinerPower :: "address \<Rightarrow> TipSetKey \<Rightarrow> error + lotusapi_MinerPower option"
  StateLookupID :: "address \<Rightarrow> TipSetKey \<Rightarrow> error + address"

text \<open>The loop of \<^verbatim>\<open>loadActiveProviders\<close> over the miners; each \<^verbatim>\<open>continue\<close> keeps the set.\<close>

fun active_loop :: "FullNode \<Rightarrow> TipSetKey \<Rightarrow> address list \<Rightarrow> uint64 set \<Rightarrow> uint64 set" where
  "active_loop api tsk [] active = active"
| "active_loop api tsk (m # ms) active =
     (case StateMinerPower api m tsk of
        Inl err \<Rightarrow> active_loop api tsk ms active
      | Inr mp \<Rightarrow>
          if \<not> hasNonZeroPower mp then active_loop api tsk ms active
          else
            (case StateLookupID api m tsk of
               Inl err \<Rightarrow> active_loop api tsk ms active
             | Inr idAddr \<Rightarrow>
                 (case IDFromAddress idAddr of
                    Inl err \<Rightarrow> active_loop api tsk ms active
                  | Inr id' \<Rightarrow> active_loop api tsk ms (insert id' active))))"

definition loadActiveProviders :: "FullNode \<Rightarrow> error + uint64 set" where
  "loadActiveProviders api =
     (case ChainHead api of
        Inl err \<Rightarrow> Inl (Wrapped ''ChainHead'' err)
      | Inr head \<Rightarrow>
          (let tsk = Key head
           in case StateListMiners api tsk of
                Inl err \<Rightarrow> Inl (Wrapped ''StateListMiners'' err)
              | Inr miners \<Rightarrow> Inr (active_loop api tsk miners {})))"

subsection \<open>The document store\<close>

text \<open>
  The collection holds \<^verbatim>\<open>DBClaim\<close> documents. A write model is what
  \<^verbatim>\<open>insertDiffClaims\<close> builds: an update-one with a filter on the four key fields, the
  update \<^verbatim>\<open>{"$setOnInsert": c}\<close> and the upsert flag.
\<close>

record claim_filter =
  f_provider_id :: int64
  f_data_cid :: string
  f_sector :: uint64
  f_term_start :: int64

record UpdateOneModel =
  Filter :: claim_filter
  SetOnInsert :: DBClaim
  Upsert :: bool

record BulkWriteResult =
  UpsertedCount :: int

text \<open>
  What goes wrong in one \<^verbatim>\<open>BulkWrite\<close> call: the operations (by position in the batch)
  that the store rejects, and whether the call comes back without a result.
\<close>

record bulk_fault =
  failed_ops :: "nat list"
  no_result :: bool

definition no_fault :: bulk_fault where
  "no_fault = \<lparr>failed_ops = [], no_result = False\<rparr>"

text \<open>
  The state of the collection: its documents in insertion order; the faults of the coming
  \<^verbatim>\<open>BulkWrite\<close> calls that reach the store, first call first (no fault once the list is
  used up); the error a
  full scan will meet, if any; and the record of every \<^verbatim>\<open>BulkWrite\<close> call made, with
  its batch, its result and its error.
\<close>

record Collection =
  docs :: "DBClaim list"
  faults :: "bulk_fault list"
  read_fault :: "error option"
  bulk_log :: "(UpdateOneModel list \<times> BulkWriteResult option \<times> error option) list"

definition matches :: "claim_filter \<Rightarrow> DBClaim \<Rightarrow> bool" where
  "matches f d \<longleftrightarrow>
     ProviderID d = f_provider_id f \<and> DataCID d = f_data_cid f
     \<and> Sector d = f_sector f \<and> TermStart d = f_term_start f"

text \<open>
  One update-one on the store. When a document matches the filter, \<^verbatim>\<open>$setOnInsert\<close>
  changes nothing. When none matches and the upsert flag is set, the document of
  \<^verbatim>\<open>$setOnInsert\<close> is inserted (it carries the four filter fields itself) and counts as
  one upsert.
\<close>

definition apply_update_one :: "DBClaim list \<Rightarrow> UpdateOneModel \<Rightarrow> DBClaim list \<times> nat" where
  "apply_update_one ds m =
     (if list_ex (matches (Filter m)) ds then (ds, 0)
      else if Upsert m then (ds @ [SetOnInsert m], 1)
      else (ds, 0))"

text \<open>
  An unordered bulk write: every operation is attempted whatever happens to the others;
  a rejected operation changes nothing. The operations are applied in batch order.
\<close>

fun apply_ops :: "nat list \<Rightarrow> nat \<Rightarrow> UpdateOneModel list \<Rightarrow> DBClaim list \<Rightarrow> DBClaim list \<times> nat" where
  "apply_ops failed i [] ds = (ds, 0)"
| "apply_ops failed i (m # ms) ds =
     (if i \<in> set failed then apply_ops failed (Suc i) ms ds
      else
        (case apply_update_one ds m of
           (ds', k) \<Rightarrow> (case apply_ops failed (Suc i) ms ds' of (ds'', n) \<Rightarrow> (ds'', k + n))))"

text \<open>
  The driver encodes every write model before anything is sent. A \<^verbatim>\<open>uint64\<close> is written
  as a 64-bit signed integer; a value above \<open>2 ^ 63 - 1\<close> is refused with an error
  (\<^verbatim>\<open>overflows int64\<close>). The only \<^verbatim>\<open>uint64\<close> of a model is the sector, in the filter and
  in the document of \<^verbatim>\<open>$setOnInsert\<close>.
\<close>

definition maxInt64 :: nat where
  "maxInt64 = 2 ^ 63 - 1"

definition encodable :: "UpdateOneModel \<Rightarrow> bool" where
  "encodable m \<longleftrightarrow>
     unat (f_sector (Filter m)) \<le> maxInt64 \<and> unat (Sector (SetOnInsert m)) \<le> maxInt64"

text \<open>
  \<^verbatim>\<open>coll.BulkWrite(ctx, batch, options.BulkWrite().SetOrdered(false))\<close>. An empty batch is
  refused. All the models of \<^verbatim>\<open>insertDiffClaims\<close> are update-one models, which an
  unordered bulk write sends as one command: when one of them cannot be encoded the call
  fails before anything is sent, nothing is written and the result counts no upsert.
  Otherwise the store answers: the result, when there is one, counts the upserts the store
  performed; the error is set when an operation was rejected or no result came back.
\<close>

definition BulkWrite ::
  "Collection \<Rightarrow> UpdateOneModel list \<Rightarrow> Collection \<times> BulkWriteResult option \<times> error option" where
  "BulkWrite coll models =
     (if models = [] then
        (coll, None, Some (LibError ''must provide at least one element in input slice''))
      else if \<not> list_all encodable models then
        (let res = Some \<lparr>UpsertedCount = 0\<rparr>;
             err = Some (LibError ''overflows int64'')
         in (coll\<lparr>bulk_log := bulk_log coll @ [(models, res, err)]\<rparr>, res, err))
      else
        (let fault = (case faults coll of [] \<Rightarrow> no_fault | f # fs \<Rightarrow> f);
             applied = apply_ops (failed_ops fault) 0 models (docs coll);
             res = (if no_result fault then None
                    else Some \<lparr>UpsertedCount = int (snd applied)\<rparr>);
             err = (if no_result fault \<or> list_ex (\<lambda>i. i < length models) (failed_ops fault)
                    then Some (LibError ''bulk write exception'') else None)
         in (coll\<lparr>docs := fst applied, faults := tl (faults coll),
                   bulk_log := bulk_log coll @ [(models, res, err)]\<rparr>, res, err)))"

subsection \<open>Reading the keys already stored\<close>

fun keys_loop :: "DBClaim list \<Rightarrow> string set \<Rightarrow> string set" where
  "keys_loop [] keys = keys"
| "keys_loop (d # ds) keys =
     keys_loop ds (insert (claimKey (ProviderID d) (DataCID d) (Sector d) (TermStart d)) keys)"

text \<open>
  \<^verbatim>\<open>loadAllClaimKeysFromDB\<close>: a full scan projecting the four key fields. An error of
  \<^verbatim>\<open>Find\<close>, of a \<^verbatim>\<open>Decode\<close> or of the cursor is returned as it is.
\<close>

definition loadAllClaimKeysFromDB :: "Collection \<Rightarrow> error + string set" where
  "loadAllClaimKeysFromDB coll =
     (case read_fault coll of
        Some err \<Rightarrow> Inl err
      | None \<Rightarrow> Inr (keys_loop (docs coll) {}))"

subsection \<open>Scanning an integer: \<^verbatim>\<open>fmt.Sscan\<close>\<close>

text \<open>
  \<^verbatim>\<open>strconv.ParseUint(s, 0, 64)\<close> and \<^verbatim>\<open>strconv.ParseInt(s, 0, 64)\<close>, as the scanner
  calls them. With base 0 the base is read from the prefix (\<^verbatim>\<open>0b\<close> 2, \<^verbatim>\<open>0o\<close> 8,
  \<^verbatim>\<open>0x\<close> 16, each only when at least one more byte follows; another leading \<^verbatim>\<open>0\<close>
  8; otherwise 10) and underscores are skipped in the digit loop and checked afterwards by
  \<^verbatim>\<open>underscoreOK\<close>. \<^verbatim>\<open>lower(c)\<close> is \<^verbatim>\<open>c | ('x' - 'X')\<close>.
\<close>

definition lower :: "char \<Rightarrow> nat" where
  "lower c = or (of_char c) 32"

definition digit_of :: "char \<Rightarrow> nat option" where
  "digit_of c =
     (if (48::nat) \<le> of_char c \<and> of_char c \<le> (57::nat) then Some (of_char c - 48)
      else if 97 \<le> lower c \<and> lower c \<le> 122 then Some (lower c - 97 + 10)
      else None)"

text \<open>
  The digit loop: a byte that is neither an underscore nor a digit or letter, and a digit
  not below the base, are syntax errors; the value is checked against the cutoff before
  the multiplication and against $2^{64}-1$ after the addition.
\<close>

fun digits_loop :: "nat \<Rightarrow> nat \<Rightarrow> string \<Rightarrow> error + nat" where
  "digits_loop base n [] = Inr n"
| "digits_loop base n (c # cs) =
     (if c = CHR ''_'' then digits_loop base n cs
      else
        (case digit_of c of
           None \<Rightarrow> Inl ErrSyntax
         | Some d \<Rightarrow>
             if base \<le> d then Inl ErrSyntax
             else if maxUint64 div base + 1 \<le> n then Inl ErrRange
             else if maxUint64 < n * base + d then Inl ErrRange
             else digits_loop base (n * base + d) cs))"

text \<open>
  \<^verbatim>\<open>underscoreOK\<close>: an underscore must follow a digit or the base prefix and be followed by
  a digit. \<open>saw\<close> is the kind of the last byte seen: \<^verbatim>\<open>^\<close> at the start, \<^verbatim>\<open>0\<close> for a
  digit or the base prefix, \<^verbatim>\<open>_\<close> for an underscore, \<^verbatim>\<open>!\<close> for anything else.
\<close>

fun underscoreOK_loop :: "bool \<Rightarrow> char \<Rightarrow> string \<Rightarrow> bool" where
  "underscoreOK_loop hex saw [] = (saw \<noteq> CHR ''_'')"
| "underscoreOK_loop hex saw (c # cs) =
     (if ((48::nat) \<le> of_char c \<and> of_char c \<le> (57::nat))
         \<or> (hex \<and> 97 \<le> lower c \<and> lower c \<le> 102)
      then underscoreOK_loop hex (CHR ''0'') cs
      else if c = CHR ''_'' then
        (if saw \<noteq> CHR ''0'' then False else underscoreOK_loop hex (CHR ''_'') cs)
      else if saw = CHR ''_'' then False
      else underscoreOK_loop hex (CHR ''!'') cs)"

definition underscoreOK :: "string \<Rightarrow> bool" where
  "underscoreOK s0 =
     (let s = (if 1 \<le> length s0 \<and> (hd s0 = CHR ''-'' \<or> hd s0 = CHR ''+'') then tl s0 else s0);
          prefix = (2 \<le> length s \<and> s ! 0 = CHR ''0''
                    \<and> (lower (s ! 1) = 98 \<or> lower (s ! 1) = 111 \<or> lower (s ! 1) = 120));
          hex = (prefix \<and> lower (s ! 1) = 120)
      in underscoreOK_loop hex (if prefix then CHR ''0'' else CHR ''^'')
           (if prefix then drop 2 s else s))"

definition ParseUint0 :: "string \<Rightarrow> error + uint64" where
  "ParseUint0 s0 =
     (if s0 = [] then Inl ErrSyntax
      else
        (let (base, s) =
               (if hd s0 = CHR ''0'' then
                  (if 3 \<le> length s0 \<and> lower (s0 ! 1) = 98 then (2, drop 2 s0)
                   else if 3 \<le> length s0 \<and> lower (s0 ! 1) = 111 then (8, drop 2 s0)
                   else if 3 \<le> length s0 \<and> lower (s0 ! 1) = 120 then (16, drop 2 s0)
                   else (8, drop 1 s0))
                else (10, s0))
         in case digits_loop base 0 s of
              Inl e \<Rightarrow> Inl e
            | Inr n \<Rightarrow>
                if CHR ''_'' \<in> set s \<and> \<not> underscoreOK s0 then Inl ErrSyntax
                else Inr (of_nat n)))"

definition ParseInt0 :: "string \<Rightarrow> error + int64" where
  "ParseInt0 s =
     (case s of
        [] \<Rightarrow> Inl ErrSyntax
      | c # cs \<Rightarrow>
          (let neg = (c = CHR ''-'');
               s' = (if c = CHR ''+'' \<or> c = CHR ''-'' then cs else s)
           in case ParseUint0 s' of
                Inl e \<Rightarrow> Inl e
              | Inr un \<Rightarrow>
                  if \<not> neg \<and> 2 ^ 63 \<le> unat un then Inl ErrRange
                  else if neg \<and> 2 ^ 63 < unat un then Inl ErrRange
                  else Inr (if neg then - un else un)))"

text \<open>
  The scanner reads runes. The runes it accepts in a number are ASCII; the only runes
  beyond ASCII it tells apart are the white space runes of \<^verbatim>\<open>isSpace\<close>, U+0085, U+00A0,
  U+1680, U+2000 to U+200A, U+2028, U+2029, U+202F, U+205F and U+3000, listed here after
  the six ASCII ones by their UTF-8 encodings. \<open>space_len\<close> is the number of bytes of the
  white space rune at the start of the text, 0 when the text starts otherwise.
\<close>

definition space_runes :: "string list" where
  "space_runes =
     [[CHR 0x09], [CHR 0x0A], [CHR 0x0B], [CHR 0x0C], [CHR 0x0D], [CHR 0x20],
      [CHR 0xC2, CHR 0x85], [CHR 0xC2, CHR 0xA0],
      [CHR 0xE1, CHR 0x9A, CHR 0x80],
      [CHR 0xE2, CHR 0x80, CHR 0x80], [CHR 0xE2, CHR 0x80, CHR 0x81],
      [CHR 0xE2, CHR 0x80, CHR 0x82], [CHR 0xE2, CHR 0x80, CHR 0x83],
      [CHR 0xE2, CHR 0x80, CHR 0x84], [CHR 0xE2, CHR 0x80, CHR 0x85],
      [CHR 0xE2, CHR 0x80, CHR 0x86], [CHR 0xE2, CHR 0x80, CHR 0x87],
      [CHR 0xE2, CHR 0x80, CHR 0x88], [CHR 0xE2, CHR 0x80, CHR 0x89],
      [CHR 0xE2, CHR 0x80, CHR 0x8A],
      [CHR 0xE2, CHR 0x80, CHR 0xA8], [CHR 0xE2, CHR 0x80, CHR 0xA9],
      [CHR 0xE2, CHR 0x80, CHR 0xAF],
      [CHR 0xE2, CHR 0x81, CHR 0x9F],
      [CHR 0xE3, CHR 0x80, CHR 0x80]]"

definition space_len :: "string \<Rightarrow> nat" where
  "space_len s =
     (case filter (\<lambda>e. take (length e) s = e) space_runes of [] \<Rightarrow> 0 | e # es \<Rightarrow> length e)"

text \<open>
  \<^verbatim>\<open>SkipSpace\<close> in the mode of \<^verbatim>\<open>Sscan\<close>, where a newline counts as white space: the
  text after the leading white space runes.
\<close>

function SkipSpace :: "string \<Rightarrow> string" where
  "SkipSpace s = (if space_len s = 0 then s else SkipSpace (drop (space_len s) s))"
  by pat_completeness auto
termination
proof (relation "measure length")
  show "wf (measure length)" by simp
next
  fix s :: string assume a: "space_len s \<noteq> 0"
  then have "s \<noteq> []" by (auto simp: space_len_def space_runes_def)
  with a show "(drop (space_len s) s, s) \<in> measure length" by simp
qed

declare SkipSpace.simps [simp del]

text \<open>
  \<^verbatim>\<open>scanBasePrefix\<close> gives the digits the number may go on with, the prefix moved to
  the token buffer, whether a zero was found, and the text left. \<^verbatim>\<open>scanNumber\<close> gives
  the run of accepted bytes; it fails when no zero was found and the text does not start
  with an accepted byte.
\<close>

definition decimalDigits :: string where
  "decimalDigits = ''0123456789''"

definition binaryDigits :: string where
  "binaryDigits = ''01''"

definition octalDigits :: string where
  "octalDigits = ''01234567''"

definition hexadecimalDigits :: string where
  "hexadecimalDigits = ''0123456789aAbBcCdDeEfF''"


definition scanBasePrefix :: "string \<Rightarrow> string \<times> string \<times> bool \<times> string" where
  "scanBasePrefix s =
     (case s of
        [] \<Rightarrow> (decimalDigits @ ''_'', [], False, s)
      | c # r \<Rightarrow>
          if c \<noteq> CHR ''0'' then (decimalDigits @ ''_'', [], False, s)
          else
            (case r of
               [] \<Rightarrow> (octalDigits @ ''_'', [c], True, r)
             | d # r' \<Rightarrow>
                 if d \<in> set ''bB'' then (binaryDigits @ ''_'', [c, d], True, r')
                 else if d \<in> set ''oO'' then (octalDigits @ ''_'', [c, d], True, r')
                 else if d \<in> set ''xX'' then (hexadecimalDigits @ ''_'', [c, d], True, r')
                 else (octalDigits @ ''_'', [c], True, r)))"

definition scanNumber :: "string \<Rightarrow> bool \<Rightarrow> string \<Rightarrow> string option" where
  "scanNumber digits haveDigits s =
     (if \<not> haveDigits \<and> (s = [] \<or> hd s \<notin> set digits) then None
      else Some (takeWhile (\<lambda>c. c \<in> set digits) s))"

text \<open>
  \<^verbatim>\<open>scanInt\<close> with the verb \<^verbatim>\<open>%v\<close> and 64 bits: white space is skipped, an end of text
  there is an error; one sign is accepted; the base prefix and the digits are collected
  and the token is handed to \<^verbatim>\<open>strconv.ParseInt\<close> with base 0. \<open>None\<close> is an error,
  which leaves the target of the scan untouched. What follows the token is not read.
\<close>

definition scanInt :: "string \<Rightarrow> int64 option" where
  "scanInt input =
     (let s = SkipSpace input
      in if s = [] then None
         else
           (let sign = (if hd s \<in> set ''+-'' then [hd s] else []);
                s1 = (if hd s \<in> set ''+-'' then tl s else s)
            in case scanBasePrefix s1 of
                 (digits, prefix, haveDigits, s2) \<Rightarrow>
                   (case scanNumber digits haveDigits s2 of
                      None \<Rightarrow> None
                    | Some tok \<Rightarrow>
                        (case ParseInt0 (sign @ prefix @ tok) of
                           Inl e \<Rightarrow> None
                         | Inr i \<Rightarrow> Some i))))"

text \<open>\<^verbatim>\<open>fmt.Sscan(str, &v)\<close> with \<^verbatim>\<open>v\<close> an \<^verbatim>\<open>int64\<close>: one operand, scanned by \<^verbatim>\<open>scanInt\<close>.\<close>

definition Sscan :: "string \<Rightarrow> int64 option" where
  "Sscan str = scanInt str"

subsection \<open>Parsing the dump and filtering by active provider\<close>

text \<open>
  \<^verbatim>\<open>filecoinClaim\<close>, one record of the dump after decoding (the fields carry the prefix
  \<open>fc\<close> here, \<^verbatim>\<open>DBClaim\<close> has fields of the same names), and \<^verbatim>\<open>rpcAllClaims\<close>, the
  whole document; \<open>Result\<close> lists the members of the map in the order the loop visits them.
\<close>

record filecoinClaim =
  fc_Provider :: uint64
  fc_Client :: uint64
  fc_Data :: string
  fc_Size :: int64
  fc_TermMin :: int64
  fc_TermMax :: int64
  fc_TermStart :: int64
  fc_Sector :: uint64

record rpcAllClaims =
  JSONRPC :: string
  Result :: "(string \<times> filecoinClaim) list"
  ID :: json

text \<open>What \<^verbatim>\<open>os.Open\<close> and \<^verbatim>\<open>dec.Decode(&rpc)\<close> give for the dump file.\<close>

datatype dump_file =
    OpenFails error
  | DecodeFails error
  | Decoded rpcAllClaims

text \<open>
  \<^verbatim>\<open>fmt.Sscan(claimIDStr, &claimID)\<close> is a parameter \<open>sscan\<close>: \<open>Some v\<close> when the scan
  stores \<open>v\<close> in \<^verbatim>\<open>claimID\<close>, \<open>None\<close> when it reports an error and leaves \<^verbatim>\<open>claimID\<close> as
  declared, zero. The program discards the count and the error. In the program the
  parameter is \<open>Sscan\<close>; what does not depend on the scanner is stated for every
  \<open>sscan\<close>. \<open>DBClaim_of\<close> is the struct literal the loop appends.
\<close>

definition DBClaim_of :: "int64 \<Rightarrow> filecoinClaim \<Rightarrow> instant \<Rightarrow> DBClaim" where
  "DBClaim_of claimID c now =
     \<lparr>ClaimID = claimID,
      ProviderID = fc_Provider c,
      ClientID = fc_Client c,
      ClientAddr = [],
      DataCID = fc_Data c,
      Size = fc_Size c,
      TermMin = fc_TermMin c,
      TermMax = fc_TermMax c,
      TermStart = fc_TermStart c,
      Sector = fc_Sector c,
      MinerAddr = ''f0'' @ dec_nat (unat (fc_Provider c)),
      UpdatedAt = now,
      Meta = []\<rparr>"

fun filter_loop ::
  "(string \<Rightarrow> int64 option) \<Rightarrow> uint64 set \<Rightarrow> instant \<Rightarrow> (string \<times> filecoinClaim) list \<Rightarrow> DBClaim list" where
  "filter_loop sscan active now [] = []"
| "filter_loop sscan active now ((claimIDStr, c) # rest) =
     (if fc_Provider c \<notin> active then filter_loop sscan active now rest
      else
        (let claimID = (case sscan claimIDStr of None \<Rightarrow> 0 | Some v \<Rightarrow> v)
         in DBClaim_of claimID c now # filter_loop sscan active now rest))"

definition loadClaimsFromFileFiltered ::
  "(string \<Rightarrow> int64 option) \<Rightarrow> dump_file \<Rightarrow> uint64 set \<Rightarrow> instant \<Rightarrow> error + DBClaim list" where
  "loadClaimsFromFileFiltered sscan file active now =
     (case file of
        OpenFails err \<Rightarrow> Inl err
      | DecodeFails err \<Rightarrow> Inl (Wrapped ''decode'' err)
      | Decoded rpc \<Rightarrow> Inr (filter_loop sscan active now (Result rpc)))"

subsection \<open>Inserting the set difference\<close>

text \<open>
  The variables of \<^verbatim>\<open>insertDiffClaims\<close> that its loop and \<^verbatim>\<open>flushBatch\<close> update: the
  collection, the pending batch, the two counters, and the number of warnings logged. The
  counters are \<^verbatim>\<open>int64\<close> in the program; they never exceed the number of claims handed
  in, so they are kept as unbounded integers.
\<close>

record diff_state =
  dcoll :: Collection
  batch :: "UpdateOneModel list"
  inserted :: int
  prepared :: int
  warnings :: nat

definition flushBatch :: "diff_state \<Rightarrow> diff_state \<times> error option" where
  "flushBatch st =
     (if batch st = [] then (st, None)
      else
        (case BulkWrite (dcoll st) (batch st) of
           (coll', res, err) \<Rightarrow>
             (st\<lparr>dcoll := coll',
                 batch := [],
                 warnings := (if err \<noteq> None then Suc (warnings st) else warnings st),
                 inserted := (case res of
                                None \<Rightarrow> inserted st
                              | Some r \<Rightarrow> inserted st + UpsertedCount r)\<rparr>,
              None)))"

text \<open>
  The write model the loop builds for a claim: the filter on its four key fields, the
  claim under \<^verbatim>\<open>$setOnInsert\<close>, and \<^verbatim>\<open>SetUpsert(true)\<close>.
\<close>

definition upsert_model :: "DBClaim \<Rightarrow> UpdateOneModel" where
  "upsert_model c =
     \<lparr>Filter = \<lparr>f_provider_id = ProviderID c, f_data_cid = DataCID c,
                 f_sector = Sector c, f_term_start = TermStart c\<rparr>,
      SetOnInsert = c,
      Upsert = True\<rparr>"

fun diff_loop ::
  "string set \<Rightarrow> int \<Rightarrow> instant \<Rightarrow> DBClaim list \<Rightarrow> diff_state \<Rightarrow> diff_state \<times> error option" where
  "diff_loop existingKeys bulkSize now [] st = (st, None)"
| "diff_loop existingKeys bulkSize now (c # cs) st =
     (let k = claimKey (ProviderID c) (DataCID c) (Sector c) (TermStart c)
      in if k \<in> existingKeys then diff_loop existingKeys bulkSize now cs st
         else
           (let c' = c\<lparr>UpdatedAt := now\<rparr>;
                st1 = st\<lparr>batch := batch st @ [upsert_model c'],
                         prepared := prepared st + 1\<rparr>
            in if bulkSize \<le> int (length (batch st1)) then
                 (case flushBatch st1 of
                    (st2, Some err) \<Rightarrow> (st2, Some err)
                  | (st2, None) \<Rightarrow> diff_loop existingKeys bulkSize now cs st2)
               else diff_loop existingKeys bulkSize now cs st1))"

text \<open>
  \<^verbatim>\<open>insertDiffClaims\<close>. The program returns \<^verbatim>\<open>inserted\<close> and the error; the final state
  is returned here, \<^verbatim>\<open>inserted\<close> being one of its fields.
\<close>

definition insertDiffClaims ::
  "Collection \<Rightarrow> DBClaim list \<Rightarrow> string set \<Rightarrow> int \<Rightarrow> instant \<Rightarrow> diff_state \<times> error option" where
  "insertDiffClaims coll chainClaims existingKeys bulkSize now =
     (let st0 = \<lparr>dcoll = coll, batch = [], inserted = 0, prepared = 0, warnings = 0\<rparr>
      in if chainClaims = [] then (st0, None)
         else
           (let bulkSize' = (if bulkSize \<le> 0 then 2000 else bulkSize)
            in case diff_loop existingKeys bulkSize' now chainClaims st0 of
                 (st1, Some err) \<Rightarrow> (st1, Some err)
               | (st1, None) \<Rightarrow>
                   (case flushBatch st1 of
                      (st2, Some err) \<Rightarrow> (st2, Some err)
                    | (st2, None) \<Rightarrow> (st2, None))))"

subsection \<open>A single run\<close>

text \<open>
  What the file system, the clock and the scanner answer during one run: the first
  \<^verbatim>\<open>os.Stat\<close> of the dump file; the \<^verbatim>\<open>os.Stat\<close> of each round of the stability loop
  (round 0, 1, 2), taken after a sleep of five seconds; the outcome of opening and decoding
  the file; \<^verbatim>\<open>fmt.Sscan\<close>; \<^verbatim>\<open>time.Now()\<close> in the parser and in the writer; and the
  error of \<^verbatim>\<open>os.Remove\<close>, if any.
\<close>

datatype stat_result = StatOK int64 | StatNotExist | StatFails error

record run_env =
  first_stat :: stat_result
  restat :: "nat \<Rightarrow> stat_result"
  dump :: dump_file
  sscan :: "string \<Rightarrow> int64 option"
  parse_time :: instant
  insert_time :: instant
  remove_fault :: "error option"

definition stableCheckRetries :: nat where
  "stableCheckRetries = 3"

function stability_loop :: "(nat \<Rightarrow> stat_result) \<Rightarrow> nat \<Rightarrow> int64 \<Rightarrow> error + bool" where
  "stability_loop rs i prevSize =
     (if i < stableCheckRetries then
        (case rs i of
           StatOK size2 \<Rightarrow>
             if size2 = prevSize then Inr True else stability_loop rs (Suc i) size2
         | StatNotExist \<Rightarrow>
             Inl (Wrapped ''stat dump file during stability check'' (LibError ''file does not exist''))
         | StatFails err \<Rightarrow> Inl (Wrapped ''stat dump file during stability check'' err))
      else Inr False)"
  by pat_completeness auto
termination
  by (relation "measure (\<lambda>(rs, i, prevSize). stableCheckRetries - i)") auto

declare stability_loop.simps [simp del]

text \<open>
  What a run leaves behind: the error it returns (\<open>None\<close> is \<^verbatim>\<open>nil\<close>), the collection,
  the steps after the stability check that it performed, in order, whether the dump file
  was removed, and the count it reports as added.
\<close>

datatype step = QueryChain | ParseFile | LoadKeys | InsertDiff | RemoveFile

record run_result =
  run_err :: "error option"
  run_coll :: Collection
  steps :: "step list"
  file_removed :: bool
  added :: int

text \<open>
  \<^verbatim>\<open>runFromTodayDumpOnce\<close>. The path of the dump file is fixed by the date and the
  directory; the environment answers for that path.
\<close>

definition runFromTodayDumpOnce :: "run_env \<Rightarrow> FullNode \<Rightarrow> Collection \<Rightarrow> int \<Rightarrow> run_result" where
  "runFromTodayDumpOnce env api coll bulkSize =
     (case first_stat env of
        StatNotExist \<Rightarrow>
          \<lparr>run_err = None, run_coll = coll, steps = [], file_removed = False, added = 0\<rparr>
      | StatFails err \<Rightarrow>
          \<lparr>run_err = Some (Wrapped ''stat dump file'' err), run_coll = coll, steps = [],
           file_removed = False, added = 0\<rparr>
      | StatOK size0 \<Rightarrow>
          (case stability_loop (restat env) 0 size0 of
             Inl err \<Rightarrow>
               \<lparr>run_err = Some err, run_coll = coll, steps = [], file_removed = False, added = 0\<rparr>
           | Inr stable' \<Rightarrow>
               if \<not> stable' then
                 \<lparr>run_err = None, run_coll = coll, steps = [], file_removed = False, added = 0\<rparr>
               else
                 (case loadActiveProviders api of
                    Inl err \<Rightarrow>
                      \<lparr>run_err = Some (Wrapped ''load active providers'' err), run_coll = coll,
                       steps = [QueryChain], file_removed = False, added = 0\<rparr>
                  | Inr active \<Rightarrow>
                      if active = {} then
                        \<lparr>run_err = None, run_coll = coll, steps = [QueryChain],
                         file_removed = False, added = 0\<rparr>
                      else
                        (case loadClaimsFromFileFiltered (sscan env) (dump env) active
                                (parse_time env) of
                           Inl err \<Rightarrow>
                             \<lparr>run_err = Some err, run_coll = coll,
                              steps = [QueryChain, ParseFile], file_removed = False, added = 0\<rparr>
                         | Inr claimsList \<Rightarrow>
                             (case loadAllClaimKeysFromDB coll of
                                Inl err \<Rightarrow>
                                  \<lparr>run_err = Some (Wrapped ''load db keys'' err), run_coll = coll,
                                   steps = [QueryChain, ParseFile, LoadKeys],
                                   file_removed = False, added = 0\<rparr>
                              | Inr existingKeys \<Rightarrow>
                                  (case insertDiffClaims coll claimsList existingKeys bulkSize
                                          (insert_time env) of
                                     (st, Some err) \<Rightarrow>
                                       \<lparr>run_err = Some err, run_coll = dcoll st,
                                        steps = [QueryChain, ParseFile, LoadKeys, InsertDiff],
                                        file_removed = False, added = inserted st\<rparr>
                                   | (st, None) \<Rightarrow>
                                       \<lparr>run_err = None, run_coll = dcoll st,
                                        steps = [QueryChain, ParseFile, LoadKeys, InsertDiff,
                                                 RemoveFile],
                                        file_removed = (remove_fault env = None),
                                        added = inserted st\<rparr>))))))"

subsection \<open>Notions used in the statements\<close>

text \<open>
  The sizes the run observes, in order: observation 0 is the first \<^verbatim>\<open>os.Stat\<close>,
  observation \<open>k + 1\<close> is the \<^verbatim>\<open>os.Stat\<close> of round \<open>k\<close> of the stability loop.
\<close>

definition observed :: "run_env \<Rightarrow> nat \<Rightarrow> stat_result" where
  "observed env k = (if k = 0 then first_stat env else restat env (k - 1))"

text \<open>
  Observation \<open>k + 1\<close> repeats observation \<open>k\<close>: both succeed and show the same size.
  Observation \<open>k + 1\<close> shows a change: both succeed and show different sizes.
\<close>

definition repeated :: "run_env \<Rightarrow> nat \<Rightarrow> bool" where
  "repeated env k \<longleftrightarrow>
     (case observed env k of StatOK a \<Rightarrow> observed env (Suc k) = StatOK a | _ \<Rightarrow> False)"

definition changed :: "run_env \<Rightarrow> nat \<Rightarrow> bool" where
  "changed env k \<longleftrightarrow>
     (case observed env k of
        StatOK a \<Rightarrow> (case observed env (Suc k) of StatOK b \<Rightarrow> b \<noteq> a | _ \<Rightarrow> False)
      | _ \<Rightarrow> False)"

text \<open>The business key of a document, as both \<^verbatim>\<open>claimKey\<close> call sites compute it.\<close>

definition key_of :: "DBClaim \<Rightarrow> string" where
  "key_of d = claimKey (ProviderID d) (DataCID d) (Sector d) (TermStart d)"

text \<open>
  The write models \<^verbatim>\<open>insertDiffClaims\<close> stages for a list of claims: one for each claim
  whose key is not among the existing keys, stamped with the writer's clock.
\<close>

definition staged :: "string set \<Rightarrow> instant \<Rightarrow> DBClaim list \<Rightarrow> UpdateOneModel list" where
  "staged existingKeys now cs =
     map (\<lambda>c. upsert_model (c\<lparr>UpdatedAt := now\<rparr>)) (filter (\<lambda>c. key_of c \<notin> existingKeys) cs)"

text \<open>What one recorded \<^verbatim>\<open>BulkWrite\<close> call adds to \<^verbatim>\<open>inserted\<close>, and whether it failed.\<close>

definition credited :: "UpdateOneModel list \<times> BulkWriteResult option \<times> error option \<Rightarrow> int" where
  "credited call = (case fst (snd call) of None \<Rightarrow> 0 | Some r \<Rightarrow> UpsertedCount r)"

definition call_failed :: "UpdateOneModel list \<times> BulkWriteResult option \<times> error option \<Rightarrow> bool" where
  "call_failed call \<longleftrightarrow> snd (snd call) \<noteq> None"

text \<open>
  The effect of a stretch of \<^verbatim>\<open>insertDiffClaims\<close> that stages the models \<open>ms\<close>: the
  calls it adds to the record carry, together with the batch still pending, exactly the
  models pending before and \<open>ms\<close>, in order; documents are only appended, each the
  \<^verbatim>\<open>$setOnInsert\<close> document of a model whose filter matched nothing stored before; the
  counters move by what the calls credit, by the calls that failed and by the number of
  models staged; what is credited is at most the number of documents appended.
\<close>

definition diff_effect :: "diff_state \<Rightarrow> UpdateOneModel list \<Rightarrow> diff_state \<Rightarrow> bool" where
  "diff_effect st ms st' \<longleftrightarrow>
     (\<exists>calls new.
        bulk_log (dcoll st') = bulk_log (dcoll st) @ calls
        \<and> concat (map fst calls) @ batch st' = batch st @ ms
        \<and> [] \<notin> set (map fst calls)
        \<and> docs (dcoll st') = docs (dcoll st) @ new
        \<and> read_fault (dcoll st') = read_fault (dcoll st)
        \<and> inserted st' = inserted st + sum_list (map credited calls)
        \<and> sum_list (map credited calls) \<le> int (length new)
        \<and> 0 \<le> sum_list (map credited calls)
        \<and> warnings st' = warnings st + length (filter call_failed calls)
        \<and> prepared st' = prepared st + int (length ms)
        \<and> list_all (\<lambda>d. list_ex (\<lambda>m. d = SetOnInsert m
                 \<and> \<not> list_ex (matches (Filter m)) (docs (dcoll st))) (batch st @ ms)) new)"

text \<open>
  The key after its leading white space and one sign, and the keys in which no decimal
  digit follows there.
\<close>

definition unsigned_part :: "string \<Rightarrow> string" where
  "unsigned_part key =
     (let s = SkipSpace key in if s \<noteq> [] \<and> hd s \<in> set ''+-'' then tl s else s)"

definition no_leading_digit :: "string \<Rightarrow> bool" where
  "no_leading_digit key \<longleftrightarrow>
     (case unsigned_part key of [] \<Rightarrow> True | c # r \<Rightarrow> c \<notin> set decimalDigits)"

text \<open>Two documents with the same uniqueness tuple.\<close>

definition same_tuple :: "DBClaim \<Rightarrow> DBClaim \<Rightarrow> bool" where
  "same_tuple d e \<longleftrightarrow>
     ProviderID d = ProviderID e \<and> DataCID d = DataCID e
     \<and> Sector d = Sector e \<and> TermStart d = TermStart e"

text \<open>The result of a run that does nothing after the steps \<open>ss\<close> and returns \<open>e\<close>.\<close>

definition untouched :: "error option \<Rightarrow> Collection \<Rightarrow> step list \<Rightarrow> run_result" where
  "untouched e coll ss =
     \<lparr>run_err = e, run_coll = coll, steps = ss, file_removed = False, added = 0\<rparr>"

subsection \<open>Sample inputs\<close>

text \<open>
  A node with three miners: one with power that resolves to actor 1001, one without
  power, one whose power lookup fails.
\<close>

definition sample_api :: FullNode where
  "sample_api =
     \<lparr>ChainHead = Inr \<lparr>Key = 1\<rparr>,
      StateListMiners =
        (\<lambda>tsk. Inr [KeyAddress ''f1active'', KeyAddress ''f1zero'', KeyAddress ''f1broken'']),
      StateMinerPower =
        (\<lambda>m tsk.
           if m = KeyAddress ''f1active'' then
             Inr (Some \<lparr>MinerPower = \<lparr>RawBytePower = 10, QualityAdjPower = 0\<rparr>,
                        TotalPower = \<lparr>RawBytePower = 100, QualityAdjPower = 100\<rparr>,
                        HasMinPower = True\<rparr>)
           else if m = KeyAddress ''f1zero'' then
             Inr (Some \<lparr>MinerPower = \<lparr>RawBytePower = 0, QualityAdjPower = 0\<rparr>,
                        TotalPower = \<lparr>RawBytePower = 100, QualityAdjPower = 100\<rparr>,
                        HasMinPower = False\<rparr>)
           else Inl (LibError ''power lookup failed'')),
      StateLookupID =
        (\<lambda>m tsk.
           if m = KeyAddress ''f1active'' then Inr (IDAddress 1001)
           else Inl (LibError ''actor not found''))\<rparr>"

text \<open>
  A dump with two claims of the active provider 1001, the second under a key that is no
  number, and one claim of provider 1002.
\<close>

definition sample_rpc :: rpcAllClaims where
  "sample_rpc =
     \<lparr>JSONRPC = ''2.0'',
      Result =
        [(''12'', \<lparr>fc_Provider = 1001, fc_Client = 5678, fc_Data = ''bafyA'', fc_Size = 2048,
                   fc_TermMin = 10, fc_TermMax = 20, fc_TermStart = 15, fc_Sector = 7\<rparr>),
         (''abc'', \<lparr>fc_Provider = 1001, fc_Client = 5678, fc_Data = ''bafyB'', fc_Size = 4096,
                    fc_TermMin = 10, fc_TermMax = 20, fc_TermStart = 16, fc_Sector = 8\<rparr>),
         (''34'', \<lparr>fc_Provider = 1002, fc_Client = 5678, fc_Data = ''bafyC'', fc_Size = 1024,
                   fc_TermMin = 10, fc_TermMax = 20, fc_TermStart = 17, fc_Sector = 9\<rparr>)],
      ID = JNumber ''1''\<rparr>"

text \<open>
  The two claims of provider 1001 again, under keys that start with an integer and are
  no decimal integers.
\<close>

definition claimA :: filecoinClaim where
  "claimA = \<lparr>fc_Provider = 1001, fc_Client = 5678, fc_Data = ''bafyA'', fc_Size = 2048,
              fc_TermMin = 10, fc_TermMax = 20, fc_TermStart = 15, fc_Sector = 7\<rparr>"

definition claimB :: filecoinClaim where
  "claimB = \<lparr>fc_Provider = 1001, fc_Client = 5678, fc_Data = ''bafyB'', fc_Size = 4096,
              fc_TermMin = 10, fc_TermMax = 20, fc_TermStart = 16, fc_Sector = 8\<rparr>"

definition prefixed_rpc :: rpcAllClaims where
  "prefixed_rpc =
     \<lparr>JSONRPC = ''2.0'', Result = [(''12abc'', claimA), (''0x1F'', claimB)], ID = JNumber ''1''\<rparr>"

definition sample_sscan :: "string \<Rightarrow> int64 option" where
  "sample_sscan s = (if s = ''12'' then Some 12 else if s = ''34'' then Some 34 else None)"

text \<open>An environment whose dump file keeps the size 100 from the first poll on.\<close>

definition sample_env :: run_env where
  "sample_env =
     \<lparr>first_stat = StatOK 100,
      restat = (\<lambda>i. StatOK 100),
      dump = Decoded sample_rpc,
      sscan = sample_sscan,
      parse_time = 5,
      insert_time = 7,
      remove_fault = None\<rparr>"

text \<open>The same where \<^verbatim>\<open>os.Remove\<close> fails, so that the dump file is still there for the next run.\<close>

definition kept_env :: run_env where
  "kept_env = sample_env\<lparr>remove_fault := Some (LibError ''remove failed'')\<rparr>"

text \<open>The sample environment with a file that grows twice, 100, 200, 300, and then keeps the size 300.\<close>

definition growing_env :: run_env where
  "growing_env = sample_env\<lparr>restat := (\<lambda>i. if i = 0 then StatOK 200 else StatOK 300)\<rparr>"

text \<open>
  The sample environment with a file that has the size 100 at the first poll, as before it,
  and grows afterwards: 100, 100, 200, 300.
\<close>

definition paused_env :: run_env where
  "paused_env =
     sample_env\<lparr>restat := (\<lambda>i. if i = 0 then StatOK 100 else if i = 1 then StatOK 200
                              else StatOK 300)\<rparr>"

text \<open>The sample environment with a file that grows at every poll: 100, 200, 300, 400.\<close>

definition unstable_env :: run_env where
  "unstable_env =
     sample_env\<lparr>restat := (\<lambda>i. if i = 0 then StatOK 200 else if i = 1 then StatOK 300
                              else StatOK 400)\<rparr>"

text \<open>
  An empty collection; the same whose next \<^verbatim>\<open>BulkWrite\<close> has its second operation
  rejected; the same whose next \<^verbatim>\<open>BulkWrite\<close> has its first two operations rejected;
  and the same whose next \<^verbatim>\<open>BulkWrite\<close> comes back with an error and no result, nothing
  having been written.
\<close>

definition empty_coll :: Collection where
  "empty_coll = \<lparr>docs = [], faults = [], read_fault = None, bulk_log = []\<rparr>"

definition partly_failing_coll :: Collection where
  "partly_failing_coll = empty_coll\<lparr>faults := [\<lparr>failed_ops = [1], no_result = False\<rparr>]\<rparr>"

definition failing_coll :: Collection where
  "failing_coll = empty_coll\<lparr>faults := [\<lparr>failed_ops = [0, 1], no_result = False\<rparr>]\<rparr>"

definition unreachable_coll :: Collection where
  "unreachable_coll = empty_coll\<lparr>faults := [\<lparr>failed_ops = [0], no_result = True\<rparr>]\<rparr>"

text \<open>An empty collection whose full scan fails.\<close>

definition unreadable_coll :: Collection where
  "unreadable_coll = empty_coll\<lparr>read_fault := Some (LibError ''cursor error'')\<rparr>"

text \<open>The two documents the sample dump yields for provider 1001, as the writer stamps them.\<close>

definition docA :: DBClaim where
  "docA =
     \<lparr>ClaimID = 12, ProviderID = 1001, ClientID = 5678, ClientAddr = [], DataCID = ''bafyA'',
      Size = 2048, TermMin = 10, TermMax = 20, TermStart = 15, Sector = 7,
      MinerAddr = ''f01001'', UpdatedAt = 7, Meta = []\<rparr>"

definition docB :: DBClaim where
  "docB =
     \<lparr>ClaimID = 0, ProviderID = 1001, ClientID = 5678, ClientAddr = [], DataCID = ''bafyB'',
      Size = 4096, TermMin = 10, TermMax = 20, TermStart = 16, Sector = 8,
      MinerAddr = ''f01001'', UpdatedAt = 7, Meta = []\<rparr>"

section \<open>Properties\<close>

subsection \<open>Decimal text round trip\<close>

lemma dec_nat_small: "n < 10 \<Longrightarrow> dec_nat n = [digit_char n]"
  by (subst dec_nat.simps) simp

lemma dec_nat_big:
  "\<not> n < 10 \<Longrightarrow> dec_nat n = dec_nat (n div 10) @ [digit_char (n mod 10)]"
  by (subst dec_nat.simps) simp

lemma digit_val_digit_char: "d < 10 \<Longrightarrow> digit_val (digit_char d) = Some d"
proof -
  assume "d < 10"
  then have "d \<in> {0, 1, 2, 3, 4, 5, 6, 7, 8, 9}" by auto
  then show ?thesis by (auto simp: digit_val_def digit_char_def)
qed

lemma dec_nat_not_Nil: "dec_nat n \<noteq> []"
  by (subst dec_nat.simps) simp

lemma parse_digits_snoc:
  "parse_digits a (xs @ [c]) =
     (case parse_digits a xs of
        Inl e \<Rightarrow> Inl e
      | Inr v \<Rightarrow>
          (case digit_val c of
             None \<Rightarrow> Inl ErrSyntax
           | Some d \<Rightarrow> if maxUint64 < v * 10 + d then Inl ErrRange else Inr (v * 10 + d)))"
  by (induction xs arbitrary: a) (auto split: option.splits)

lemma parse_digits_dec_nat: "n \<le> maxUint64 \<Longrightarrow> parse_digits 0 (dec_nat n) = Inr n"
proof (induction n rule: dec_nat.induct)
  case (1 n)
  show ?case
  proof (cases "n < 10")
    case True
    with "1.prems" show ?thesis
      by (simp add: dec_nat_small digit_val_digit_char)
  next
    case False
    from "1.prems" have le: "n div 10 \<le> maxUint64" by simp
    have ih: "parse_digits 0 (dec_nat (n div 10)) = Inr (n div 10)"
      using "1.IH" [OF False le] .
    have d: "digit_val (digit_char (n mod 10)) = Some (n mod 10)"
      by (simp add: digit_val_digit_char)
    have v: "n div 10 * 10 + n mod 10 = n" by simp
    show ?thesis
      using "1.prems" by (simp add: dec_nat_big [OF False] parse_digits_snoc ih d v)
  qed
qed

lemma unat_of_nat_64: "n < 2 ^ 64 \<Longrightarrow> unat (of_nat n :: 64 word) = n"
  by (simp add: unat_of_nat)

lemma sint_of_nat_63: "n < 2 ^ 63 \<Longrightarrow> sint (of_nat n :: 64 word) = int n"
proof -
  assume "n < 2 ^ 63"
  then have "int n < 2 ^ 63" by (simp add: of_nat_less_iff [of n "2 ^ 63", simplified])
  then have "signed_take_bit 63 (int n) = int n"
    by (intro signed_take_bit_int_eq_self) simp_all
  then show ?thesis by (simp add: signed_of_nat)
qed

lemma ParseUint_dec_nat: "n \<le> maxUint64 \<Longrightarrow> ParseUint (dec_nat n) = Inr (of_nat n)"
  by (simp add: ParseUint_def dec_nat_not_Nil parse_digits_dec_nat)

lemma hd_dec_nat_digit: "\<exists>d < 10. hd (dec_nat n) = digit_char d"
proof (induction n rule: dec_nat.induct)
  case (1 n)
  show ?case
  proof (cases "n < 10")
    case True
    then show ?thesis by (auto simp: dec_nat_small)
  next
    case False
    then show ?thesis
      using "1.IH" [OF False] by (simp add: dec_nat_big dec_nat_not_Nil)
  qed
qed

lemma digit_char_not_sign: "d < 10 \<Longrightarrow> digit_char d \<noteq> CHR ''+'' \<and> digit_char d \<noteq> CHR ''-''"
proof -
  assume "d < 10"
  then have "d \<in> {0, 1, 2, 3, 4, 5, 6, 7, 8, 9}" by auto
  then show ?thesis by (auto simp: digit_char_def)
qed

lemma ParseInt_dec_nat:
  assumes "n < 2 ^ 63"
  shows "ParseInt (dec_nat n) = Inr (of_nat n)"
proof -
  obtain c cs where s: "dec_nat n = c # cs"
    using dec_nat_not_Nil [of n] by (cases "dec_nat n") auto
  obtain d where d: "d < 10" "hd (dec_nat n) = digit_char d"
    using hd_dec_nat_digit [of n] by auto
  with s have c: "c \<noteq> CHR ''+''" "c \<noteq> CHR ''-''"
    using digit_char_not_sign [of d] by auto
  from assms have le: "n \<le> maxUint64" by (simp add: maxUint64_def)
  have u: "ParseUint (c # cs) = Inr (of_nat n)"
    using ParseUint_dec_nat [OF le] s by simp
  have un: "unat (of_nat n :: 64 word) = n"
    using assms by (simp add: unat_of_nat_64)
  show ?thesis
    using assms by (simp add: ParseInt_def s c u un)
qed

subsection \<open>Lenient decode equivalence\<close>

text \<open>
  Claim C4. For every string \<open>s\<close>, the content identifier decoded from the bare JSON
  string \<open>s\<close> and from the object whose only member is \<open>s\<close> under the key \<^verbatim>\<open>"/"\<close> is the
  same value, \<open>s\<close> itself. For every natural number \<open>n\<close> that fits the field's type, a
  numeric field decoded from the JSON number \<open>n\<close> and from the string holding the decimal
  text of \<open>n\<close> is the same integer, \<open>n\<close>: up to $2^{64}-1$ for the unsigned fields
  and up to $2^{63}-1$ for the signed ones.
\<close>

theorem lenient_decode_equivalence:
  "cidOrObj_UnmarshalJSON (JString s) = Inr s
   \<and> cidOrObj_UnmarshalJSON (JObject [(''/'', JString s)]) = Inr s
   \<and> (n < 2 ^ 64 \<longrightarrow>
        u64OrStr_UnmarshalJSON (JNumber (dec_nat n)) = Inr (of_nat n)
        \<and> u64OrStr_UnmarshalJSON (JString (dec_nat n)) = Inr (of_nat n))
   \<and> (n < 2 ^ 63 \<longrightarrow>
        i64OrStr_UnmarshalJSON (JNumber (dec_nat n)) = Inr (of_nat n)
        \<and> i64OrStr_UnmarshalJSON (JString (dec_nat n)) = Inr (of_nat n)
        \<and> sint (of_nat n :: int64) = int n)"
proof -
  have cid: "cidOrObj_UnmarshalJSON (JString s) = Inr s"
    "cidOrObj_UnmarshalJSON (JObject [(''/'', JString s)]) = Inr s"
    by (simp_all add: cidOrObj_UnmarshalJSON_def)
  have u: "u64OrStr_UnmarshalJSON (JNumber (dec_nat n)) = Inr (of_nat n)
      \<and> u64OrStr_UnmarshalJSON (JString (dec_nat n)) = Inr (of_nat n)" if "n < 2 ^ 64"
  proof -
    from that have "n \<le> maxUint64" by (simp add: maxUint64_def)
    then show ?thesis
      by (simp add: u64OrStr_UnmarshalJSON_def ParseUint_dec_nat)
  qed
  have i: "i64OrStr_UnmarshalJSON (JNumber (dec_nat n)) = Inr (of_nat n)
      \<and> i64OrStr_UnmarshalJSON (JString (dec_nat n)) = Inr (of_nat n)
      \<and> sint (of_nat n :: int64) = int n" if "n < 2 ^ 63"
  proof -
    have "sint (of_nat n :: int64) = int n"
      using that by (rule sint_of_nat_63)
    then show ?thesis
      using that by (simp add: i64OrStr_UnmarshalJSON_def ParseInt_dec_nat)
  qed
  from cid u i show ?thesis by blast
qed

theorem lenient_decode_equivalence_witness:
  "cidOrObj_UnmarshalJSON (JString ''bafyXYZ'') = Inr ''bafyXYZ''
   \<and> cidOrObj_UnmarshalJSON (JObject [(''/'', JString ''bafyXYZ'')]) = Inr ''bafyXYZ''
   \<and> u64OrStr_UnmarshalJSON (JNumber ''12345'') = Inr 12345
   \<and> u64OrStr_UnmarshalJSON (JString ''12345'') = Inr 12345
   \<and> i64OrStr_UnmarshalJSON (JNumber ''12345'') = Inr 12345
   \<and> i64OrStr_UnmarshalJSON (JString ''12345'') = Inr 12345"
proof -
  have d: "dec_nat 12345 = ''12345''"
    by (simp add: dec_nat_small dec_nat_big digit_char_def)
  show ?thesis
    using lenient_decode_equivalence [of "''bafyXYZ''" 12345] by (simp add: d)
qed

subsection \<open>The stability loop\<close>

lemma stability_loop_done: "\<not> i < stableCheckRetries \<Longrightarrow> stability_loop rs i prev = Inr False"
  by (subst stability_loop.simps) simp

lemma stability_loop_same:
  "i < stableCheckRetries \<Longrightarrow> rs i = StatOK prev \<Longrightarrow> stability_loop rs i prev = Inr True"
  by (subst stability_loop.simps) simp

lemma stability_loop_changed:
  "i < stableCheckRetries \<Longrightarrow> rs i = StatOK s \<Longrightarrow> s \<noteq> prev \<Longrightarrow>
   stability_loop rs i prev = stability_loop rs (Suc i) s"
  by (subst stability_loop.simps) simp

lemma stability_loop_all_changed:
  assumes "rs 0 = StatOK s1" "rs 1 = StatOK s2" "rs 2 = StatOK s3"
    "s1 \<noteq> s0" "s2 \<noteq> s1" "s3 \<noteq> s2"
  shows "stability_loop rs 0 s0 = Inr False"
proof -
  have "stability_loop rs 0 s0 = stability_loop rs (Suc 0) s1"
    using assms stability_loop_changed [where i = 0 and rs = rs and s = s1 and prev = s0]
    by (simp add: stableCheckRetries_def)
  also have "\<dots> = stability_loop rs (Suc (Suc 0)) s2"
    using assms stability_loop_changed [where i = "Suc 0" and rs = rs and s = s2 and prev = s1]
    by (simp add: stableCheckRetries_def)
  also have "\<dots> = stability_loop rs (Suc (Suc (Suc 0))) s3"
    using assms stability_loop_changed [where i = "Suc (Suc 0)" and rs = rs and s = s3 and prev = s2]
    by (simp add: stableCheckRetries_def numeral_2_eq_2)
  also have "\<dots> = Inr False"
    by (intro stability_loop_done) (simp add: stableCheckRetries_def)
  finally show ?thesis .
qed

lemma run_parse_only_if_stable:
  assumes "ParseFile \<in> set (steps (runFromTodayDumpOnce env api coll bulkSize))"
  shows "\<exists>s0. first_stat env = StatOK s0 \<and> stability_loop (restat env) 0 s0 = Inr True"
  using assms
  by (auto simp: runFromTodayDumpOnce_def split: stat_result.splits sum.splits if_splits prod.splits option.splits)

text \<open>The three rounds of the loop written out.\<close>

lemma stability_loop_three:
  "stability_loop rs 0 s0 =
     (case rs 0 of
        StatOK a \<Rightarrow>
          if a = s0 then Inr True
          else (case rs (Suc 0) of
                  StatOK b \<Rightarrow>
                    if b = a then Inr True
                    else (case rs (Suc (Suc 0)) of
                            StatOK c \<Rightarrow> Inr (c = b)
                          | StatNotExist \<Rightarrow>
                              Inl (Wrapped ''stat dump file during stability check''
                                     (LibError ''file does not exist''))
                          | StatFails err \<Rightarrow>
                              Inl (Wrapped ''stat dump file during stability check'' err))
                | StatNotExist \<Rightarrow>
                    Inl (Wrapped ''stat dump file during stability check''
                           (LibError ''file does not exist''))
                | StatFails err \<Rightarrow> Inl (Wrapped ''stat dump file during stability check'' err))
      | StatNotExist \<Rightarrow>
          Inl (Wrapped ''stat dump file during stability check'' (LibError ''file does not exist''))
      | StatFails err \<Rightarrow> Inl (Wrapped ''stat dump file during stability check'' err))"
  by (simp add: stability_loop.simps [of rs 0] stability_loop.simps [of rs "Suc 0"]
      stability_loop.simps [of rs "Suc (Suc 0)"] stability_loop.simps [of rs "Suc (Suc (Suc 0))"]
      stableCheckRetries_def split: stat_result.splits)

lemma gate_expand:
  "(\<exists>k < 3. repeated env k \<and> (\<forall>j < k. changed env j)) \<longleftrightarrow>
     repeated env 0 \<or> (changed env 0 \<and> repeated env (Suc 0))
     \<or> (changed env 0 \<and> changed env (Suc 0) \<and> repeated env (Suc (Suc 0)))"
  by (simp add: numeral_3_eq_3 less_Suc_eq ex_disj_distrib all_conj_distrib conj_disj_distribR) blast

lemma stability_loop_True_iff:
  "first_stat env = StatOK s0 \<Longrightarrow>
   stability_loop (restat env) 0 s0 = Inr True \<longleftrightarrow>
     repeated env 0 \<or> (changed env 0 \<and> repeated env (Suc 0))
     \<or> (changed env 0 \<and> changed env (Suc 0) \<and> repeated env (Suc (Suc 0)))"
  by (auto simp: stability_loop_three repeated_def changed_def observed_def
      split: stat_result.splits)

lemma stability_loop_False_iff:
  "first_stat env = StatOK s0 \<Longrightarrow>
   stability_loop (restat env) 0 s0 = Inr False \<longleftrightarrow>
     changed env 0 \<and> changed env (Suc 0) \<and> changed env (Suc (Suc 0))"
  by (auto simp: stability_loop_three repeated_def changed_def observed_def
      split: stat_result.splits)

lemma run_passes_gate:
  "QueryChain \<in> set (steps (runFromTodayDumpOnce env api coll bulkSize)) \<longleftrightarrow>
   (\<exists>s0. first_stat env = StatOK s0 \<and> stability_loop (restat env) 0 s0 = Inr True)"
  by (auto simp: runFromTodayDumpOnce_def
      split: stat_result.splits sum.splits if_splits prod.splits option.splits)

lemma run_skipped:
  "runFromTodayDumpOnce env api coll bulkSize = untouched None coll [] \<longleftrightarrow>
   first_stat env = StatNotExist
   \<or> (\<exists>s0. first_stat env = StatOK s0 \<and> stability_loop (restat env) 0 s0 = Inr False)"
  by (auto simp: runFromTodayDumpOnce_def untouched_def
      split: stat_result.splits sum.splits if_splits prod.splits option.splits)

subsection \<open>The store and the effect of \<^verbatim>\<open>insertDiffClaims\<close>\<close>

lemma apply_update_one_cases:
  "apply_update_one ds m = (ds, 0)
   \<or> (apply_update_one ds m = (ds @ [SetOnInsert m], 1) \<and> \<not> list_ex (matches (Filter m)) ds)"
  by (simp add: apply_update_one_def)

lemma apply_ops_effect:
  "apply_ops failed i ms ds = (ds', n) \<Longrightarrow>
   \<exists>new. ds' = ds @ new \<and> length new = n
     \<and> list_all (\<lambda>d. list_ex (\<lambda>m. d = SetOnInsert m \<and> \<not> list_ex (matches (Filter m)) ds) ms) new"
proof (induction ms arbitrary: i ds ds' n)
  case Nil
  then show ?case by simp
next
  case (Cons m ms)
  show ?case
  proof (cases "i \<in> set failed")
    case True
    with Cons.prems have "apply_ops failed (Suc i) ms ds = (ds', n)" by simp
    from Cons.IH [OF this] obtain new where "ds' = ds @ new" "length new = n"
      "list_all (\<lambda>d. list_ex (\<lambda>m. d = SetOnInsert m \<and> \<not> list_ex (matches (Filter m)) ds) ms) new"
      by blast
    then show ?thesis
      by (intro exI [of _ new]) (auto simp: list_all_iff list_ex_iff)
  next
    case False
    obtain ds1 k where u: "apply_update_one ds m = (ds1, k)" by (cases "apply_update_one ds m")
    obtain ds2 n2 where r: "apply_ops failed (Suc i) ms ds1 = (ds2, n2)"
      by (cases "apply_ops failed (Suc i) ms ds1")
    from Cons.prems False u r have res: "ds' = ds2" "n = k + n2" by simp_all
    from Cons.IH [OF r] obtain new2 where n2: "ds2 = ds1 @ new2" "length new2 = n2"
      "list_all (\<lambda>d. list_ex (\<lambda>m. d = SetOnInsert m \<and> \<not> list_ex (matches (Filter m)) ds1) ms) new2"
      by blast
    from apply_update_one_cases [of ds m] u
    consider "ds1 = ds" "k = 0"
      | "ds1 = ds @ [SetOnInsert m]" "k = 1" "\<not> list_ex (matches (Filter m)) ds"
      by auto
    then show ?thesis
    proof cases
      case 1
      with res n2 show ?thesis
        by (intro exI [of _ new2]) (auto simp: list_all_iff list_ex_iff)
    next
      case 2
      with res n2 show ?thesis
        by (intro exI [of _ "SetOnInsert m # new2"]) (auto simp: list_all_iff list_ex_iff)
    qed
  qed
qed

lemma BulkWrite_effect:
  assumes "BulkWrite coll ms = (coll', res, err)" "ms \<noteq> []"
  shows "\<exists>new. docs coll' = docs coll @ new
     \<and> bulk_log coll' = bulk_log coll @ [(ms, res, err)]
     \<and> read_fault coll' = read_fault coll
     \<and> 0 \<le> credited (ms, res, err)
     \<and> credited (ms, res, err) \<le> int (length new)
     \<and> list_all (\<lambda>d. list_ex (\<lambda>m. d = SetOnInsert m \<and> \<not> list_ex (matches (Filter m)) (docs coll)) ms) new"
proof (cases "list_all encodable ms")
  case False
  with assms have "coll' = coll\<lparr>bulk_log := bulk_log coll @ [(ms, res, err)]\<rparr>"
    and "res = Some \<lparr>UpsertedCount = 0\<rparr>"
    by (auto simp: BulkWrite_def Let_def)
  then show ?thesis
    by (intro exI [of _ "[]"]) (simp add: credited_def)
next
  case True
  define fault where "fault = (case faults coll of [] \<Rightarrow> no_fault | f # fs \<Rightarrow> f)"
  obtain ds' n where a: "apply_ops (failed_ops fault) 0 ms (docs coll) = (ds', n)"
    by (cases "apply_ops (failed_ops fault) 0 ms (docs coll)")
  from apply_ops_effect [OF a] obtain new where new: "ds' = docs coll @ new" "length new = n"
    "list_all (\<lambda>d. list_ex (\<lambda>m. d = SetOnInsert m \<and> \<not> list_ex (matches (Filter m)) (docs coll)) ms) new"
    by blast
  from assms a True have c: "coll' = coll\<lparr>docs := ds', faults := tl (faults coll),
        bulk_log := bulk_log coll @ [(ms, res, err)]\<rparr>"
    and r: "res = (if no_result fault then None else Some \<lparr>UpsertedCount = int n\<rparr>)"
    by (auto simp: BulkWrite_def Let_def fault_def)
  show ?thesis
    using new c r by (intro exI [of _ new]) (simp add: credited_def)
qed

lemma diff_effect_refl: "diff_effect st [] st"
  unfolding diff_effect_def
  by (intro exI [of _ "[]"]) simp

lemma diff_effect_trans:
  assumes "diff_effect st a st1" "diff_effect st1 b st2"
  shows "diff_effect st (a @ b) st2"
proof -
  from assms(1) obtain c1 n1 where 1:
    "bulk_log (dcoll st1) = bulk_log (dcoll st) @ c1"
    "concat (map fst c1) @ batch st1 = batch st @ a"
    "[] \<notin> set (map fst c1)"
    "docs (dcoll st1) = docs (dcoll st) @ n1"
    "read_fault (dcoll st1) = read_fault (dcoll st)"
    "inserted st1 = inserted st + sum_list (map credited c1)"
    "sum_list (map credited c1) \<le> int (length n1)"
    "0 \<le> sum_list (map credited c1)"
    "warnings st1 = warnings st + length (filter call_failed c1)"
    "prepared st1 = prepared st + int (length a)"
    "list_all (\<lambda>d. list_ex (\<lambda>m. d = SetOnInsert m
        \<and> \<not> list_ex (matches (Filter m)) (docs (dcoll st))) (batch st @ a)) n1"
    unfolding diff_effect_def by blast
  from assms(2) obtain c2 n2 where 2:
    "bulk_log (dcoll st2) = bulk_log (dcoll st1) @ c2"
    "concat (map fst c2) @ batch st2 = batch st1 @ b"
    "[] \<notin> set (map fst c2)"
    "docs (dcoll st2) = docs (dcoll st1) @ n2"
    "read_fault (dcoll st2) = read_fault (dcoll st1)"
    "inserted st2 = inserted st1 + sum_list (map credited c2)"
    "sum_list (map credited c2) \<le> int (length n2)"
    "0 \<le> sum_list (map credited c2)"
    "warnings st2 = warnings st1 + length (filter call_failed c2)"
    "prepared st2 = prepared st1 + int (length b)"
    "list_all (\<lambda>d. list_ex (\<lambda>m. d = SetOnInsert m
        \<and> \<not> list_ex (matches (Filter m)) (docs (dcoll st1))) (batch st1 @ b)) n2"
    unfolding diff_effect_def by blast
  have sub: "set (batch st1) \<subseteq> set (batch st @ a)"
  proof -
    have "set (batch st1) \<subseteq> set (concat (map fst c1) @ batch st1)" by auto
    with 1(2) show ?thesis by simp
  qed
  have cc: "concat (map fst (c1 @ c2)) @ batch st2 = batch st @ a @ b"
  proof -
    have "concat (map fst (c1 @ c2)) @ batch st2
        = concat (map fst c1) @ (concat (map fst c2) @ batch st2)" by simp
    also have "\<dots> = concat (map fst c1) @ batch st1 @ b" using 2(2) by simp
    also have "\<dots> = (concat (map fst c1) @ batch st1) @ b" by simp
    also have "\<dots> = batch st @ a @ b" using 1(2) by simp
    finally show ?thesis .
  qed
  have n1': "list_all (\<lambda>d. list_ex (\<lambda>m. d = SetOnInsert m
        \<and> \<not> list_ex (matches (Filter m)) (docs (dcoll st))) (batch st @ a @ b)) n1"
    using 1(11) by (auto simp: list_all_iff list_ex_iff)
  have n2': "list_all (\<lambda>d. list_ex (\<lambda>m. d = SetOnInsert m
        \<and> \<not> list_ex (matches (Filter m)) (docs (dcoll st))) (batch st @ a @ b)) n2"
    unfolding list_all_iff
  proof
    fix d assume "d \<in> set n2"
    with 2(11) obtain m where m: "m \<in> set (batch st1 @ b)" "d = SetOnInsert m"
      "\<not> list_ex (matches (Filter m)) (docs (dcoll st1))"
      by (auto simp: list_all_iff list_ex_iff)
    from m(1) sub have "m \<in> set (batch st @ a @ b)" by auto
    moreover from m(3) 1(4) have "\<not> list_ex (matches (Filter m)) (docs (dcoll st))"
      by (auto simp: list_ex_iff)
    ultimately show "list_ex (\<lambda>m. d = SetOnInsert m
        \<and> \<not> list_ex (matches (Filter m)) (docs (dcoll st))) (batch st @ a @ b)"
      using m(2) by (auto simp: list_ex_iff)
  qed
  show ?thesis
    unfolding diff_effect_def
  proof (intro exI [of _ "c1 @ c2"] exI [of _ "n1 @ n2"] conjI)
    show "bulk_log (dcoll st2) = bulk_log (dcoll st) @ c1 @ c2" using 1(1) 2(1) by simp
    show "concat (map fst (c1 @ c2)) @ batch st2 = batch st @ a @ b" by (rule cc)
    show "[] \<notin> set (map fst (c1 @ c2))" using 1(3) 2(3) by auto
    show "docs (dcoll st2) = docs (dcoll st) @ n1 @ n2" using 1(4) 2(4) by simp
    show "read_fault (dcoll st2) = read_fault (dcoll st)" using 1(5) 2(5) by simp
    show "inserted st2 = inserted st + sum_list (map credited (c1 @ c2))"
      using 1(6) 2(6) by simp
    show "sum_list (map credited (c1 @ c2)) \<le> int (length (n1 @ n2))"
      using 1(7) 2(7) by simp
    show "0 \<le> sum_list (map credited (c1 @ c2))" using 1(8) 2(8) by simp
    show "warnings st2 = warnings st + length (filter call_failed (c1 @ c2))"
      using 1(9) 2(9) by simp
    show "prepared st2 = prepared st + int (length (a @ b))" using 1(10) 2(10) by simp
    show "list_all (\<lambda>d. list_ex (\<lambda>m. d = SetOnInsert m
        \<and> \<not> list_ex (matches (Filter m)) (docs (dcoll st))) (batch st @ a @ b)) (n1 @ n2)"
      using n1' n2' by simp
  qed
qed

lemma diff_effect_stage:
  "diff_effect st [m] (st\<lparr>batch := batch st @ [m], prepared := prepared st + 1\<rparr>)"
  unfolding diff_effect_def
  by (intro exI [of _ "[]"]) simp

lemma flushBatch_effect:
  assumes "flushBatch st = (st', e)"
  shows "e = None \<and> batch st' = [] \<and> diff_effect st [] st'"
proof (cases "batch st = []")
  case True
  with assms have "st' = st" "e = None" by (simp_all add: flushBatch_def)
  with True show ?thesis by (simp add: diff_effect_refl)
next
  case False
  obtain coll' res err where b: "BulkWrite (dcoll st) (batch st) = (coll', res, err)"
    by (cases "BulkWrite (dcoll st) (batch st)")
  from BulkWrite_effect [OF b False] obtain new where new:
    "docs coll' = docs (dcoll st) @ new"
    "bulk_log coll' = bulk_log (dcoll st) @ [(batch st, res, err)]"
    "read_fault coll' = read_fault (dcoll st)"
    "0 \<le> credited (batch st, res, err)"
    "credited (batch st, res, err) \<le> int (length new)"
    "list_all (\<lambda>d. list_ex (\<lambda>m. d = SetOnInsert m
        \<and> \<not> list_ex (matches (Filter m)) (docs (dcoll st))) (batch st)) new"
    by blast
  from assms False b have e: "e = None"
    and st': "st' = st\<lparr>dcoll := coll', batch := [],
        warnings := (if err \<noteq> None then Suc (warnings st) else warnings st),
        inserted := (case res of None \<Rightarrow> inserted st | Some r \<Rightarrow> inserted st + UpsertedCount r)\<rparr>"
    by (simp_all add: flushBatch_def)
  have ins: "inserted st' = inserted st + credited (batch st, res, err)"
    by (simp add: st' credited_def split: option.splits)
  have "diff_effect st [] st'"
    unfolding diff_effect_def
  proof (intro exI [of _ "[(batch st, res, err)]"] exI [of _ new] conjI)
    show "bulk_log (dcoll st') = bulk_log (dcoll st) @ [(batch st, res, err)]"
      using new(2) by (simp add: st')
    show "concat (map fst [(batch st, res, err)]) @ batch st' = batch st @ []"
      by (simp add: st')
    show "[] \<notin> set (map fst [(batch st, res, err)])" using False by simp
    show "docs (dcoll st') = docs (dcoll st) @ new" using new(1) by (simp add: st')
    show "read_fault (dcoll st') = read_fault (dcoll st)" using new(3) by (simp add: st')
    show "inserted st' = inserted st + sum_list (map credited [(batch st, res, err)])"
      using ins by simp
    show "sum_list (map credited [(batch st, res, err)]) \<le> int (length new)"
      using new(5) by simp
    show "0 \<le> sum_list (map credited [(batch st, res, err)])" using new(4) by simp
    show "warnings st' = warnings st + length (filter call_failed [(batch st, res, err)])"
      by (simp add: st' call_failed_def)
    show "prepared st' = prepared st + int (length ([]::UpdateOneModel list))"
      by (simp add: st')
    show "list_all (\<lambda>d. list_ex (\<lambda>m. d = SetOnInsert m
        \<and> \<not> list_ex (matches (Filter m)) (docs (dcoll st))) (batch st @ [])) new"
      using new(6) by simp
  qed
  with e show ?thesis by (simp add: st')
qed

lemma staged_Cons_known:
  "key_of c \<in> keys \<Longrightarrow> staged keys now (c # cs) = staged keys now cs"
  by (simp add: staged_def)

lemma staged_Cons_new:
  "key_of c \<notin> keys \<Longrightarrow>
   staged keys now (c # cs) = upsert_model (c\<lparr>UpdatedAt := now\<rparr>) # staged keys now cs"
  by (simp add: staged_def)

lemma diff_loop_effect:
  "diff_loop keys bs now cs st = (st', e) \<Longrightarrow> e = None \<and> diff_effect st (staged keys now cs) st'"
proof (induction cs arbitrary: st st' e)
  case Nil
  then show ?case by (simp add: staged_def diff_effect_refl)
next
  case (Cons c cs)
  show ?case
  proof (cases "key_of c \<in> keys")
    case True
    with Cons.prems have "diff_loop keys bs now cs st = (st', e)"
      by (simp add: key_of_def)
    from Cons.IH [OF this] True show ?thesis by (simp add: staged_Cons_known)
  next
    case False
    define m where "m = upsert_model (c\<lparr>UpdatedAt := now\<rparr>)"
    define st1 where "st1 = st\<lparr>batch := batch st @ [m], prepared := prepared st + 1\<rparr>"
    have s1: "diff_effect st [m] st1"
      unfolding st1_def by (rule diff_effect_stage)
    have stg: "staged keys now (c # cs) = [m] @ staged keys now cs"
      using False by (simp add: staged_Cons_new m_def)
    show ?thesis
    proof (cases "bs \<le> int (length (batch st1))")
      case flush: True
      obtain st2 e2 where f: "flushBatch st1 = (st2, e2)" by (cases "flushBatch st1")
      from flushBatch_effect [OF f] have e2: "e2 = None" and s2: "diff_effect st1 [] st2"
        by simp_all
      from Cons.prems False flush f e2 have "diff_loop keys bs now cs st2 = (st', e)"
        by (simp add: key_of_def Let_def st1_def m_def)
      from Cons.IH [OF this] have e: "e = None" and s3: "diff_effect st2 (staged keys now cs) st'"
        by simp_all
      from diff_effect_trans [OF s1 s2] have "diff_effect st [m] st2" by simp
      from diff_effect_trans [OF this s3] e stg show ?thesis by simp
    next
      case noflush: False
      with Cons.prems False have "diff_loop keys bs now cs st1 = (st', e)"
        by (simp add: key_of_def Let_def st1_def m_def)
      from Cons.IH [OF this] have e: "e = None" and s3: "diff_effect st1 (staged keys now cs) st'"
        by simp_all
      from diff_effect_trans [OF s1 s3] e stg show ?thesis by simp
    qed
  qed
qed

lemma insertDiffClaims_effect:
  assumes "insertDiffClaims coll cs keys bs now = (st', e)"
  shows "e = None \<and> batch st' = []
    \<and> diff_effect \<lparr>dcoll = coll, batch = [], inserted = 0, prepared = 0, warnings = 0\<rparr>
        (staged keys now cs) st'"
proof (cases "cs = []")
  case True
  with assms show ?thesis
    by (auto simp: insertDiffClaims_def staged_def diff_effect_refl)
next
  case False
  define st0 where "st0 = \<lparr>dcoll = coll, batch = [], inserted = 0, prepared = 0, warnings = 0\<rparr>"
  define bs' where "bs' = (if bs \<le> 0 then 2000 else bs)"
  obtain st1 e1 where l: "diff_loop keys bs' now cs st0 = (st1, e1)"
    by (cases "diff_loop keys bs' now cs st0")
  from diff_loop_effect [OF l] have e1: "e1 = None" and s1: "diff_effect st0 (staged keys now cs) st1"
    by simp_all
  obtain st2 e2 where f: "flushBatch st1 = (st2, e2)" by (cases "flushBatch st1")
  from flushBatch_effect [OF f] have e2: "e2 = None" and b2: "batch st2 = []"
    and s2: "diff_effect st1 [] st2" by simp_all
  from assms False l f e1 e2 have r: "st' = st2" "e = None"
    by (simp_all add: insertDiffClaims_def Let_def st0_def bs'_def)
  from diff_effect_trans [OF s1 s2] r b2 show ?thesis by (simp add: st0_def)
qed

subsection \<open>Keys covered when no write fails\<close>

lemma keys_loop_eq: "keys_loop ds K = K \<union> key_of ` set ds"
  by (induction ds arbitrary: K) (auto simp: key_of_def)

lemma key_of_touch [simp]: "key_of (c\<lparr>UpdatedAt := t\<rparr>) = key_of c"
  by (simp add: key_of_def)

lemma matches_upsert_model_key:
  "matches (Filter (upsert_model c)) d \<Longrightarrow> key_of d = key_of c"
  by (simp add: matches_def upsert_model_def key_of_def)

text \<open>
  A call that reports no error has stored the key of every model of its batch: the store
  rejected none of its operations, and each operation either found its key stored or
  inserted its document.
\<close>

lemma apply_update_one_covers:
  "apply_update_one ds (upsert_model c) = (ds', k) \<Longrightarrow>
   set ds \<subseteq> set ds' \<and> key_of c \<in> key_of ` set ds'"
proof (cases "list_ex (matches (Filter (upsert_model c))) ds")
  case True
  then obtain d where d: "d \<in> set ds" "matches (Filter (upsert_model c)) d"
    by (auto simp: list_ex_iff)
  from matches_upsert_model_key [OF d(2)] d(1) have "key_of c \<in> key_of ` set ds"
    by (metis imageI)
  moreover assume "apply_update_one ds (upsert_model c) = (ds', k)"
  with True have "ds' = ds" by (simp add: apply_update_one_def)
  ultimately show ?thesis by simp
next
  case False
  moreover assume "apply_update_one ds (upsert_model c) = (ds', k)"
  ultimately have "ds' = ds @ [c]" by (simp add: apply_update_one_def upsert_model_def)
  then show ?thesis by auto
qed

lemma apply_ops_covers:
  "apply_ops failed i (map upsert_model cs) ds = (ds', n) \<Longrightarrow>
   (\<And>j. i \<le> j \<Longrightarrow> j < i + length cs \<Longrightarrow> j \<notin> set failed) \<Longrightarrow>
   set ds \<subseteq> set ds' \<and> key_of ` set cs \<subseteq> key_of ` set ds'"
proof (induction cs arbitrary: i ds ds' n)
  case Nil
  then show ?case by simp
next
  case (Cons c cs)
  have nf: "i \<notin> set failed" using Cons.prems(2) [of i] by simp
  obtain ds1 k where u: "apply_update_one ds (upsert_model c) = (ds1, k)"
    by (cases "apply_update_one ds (upsert_model c)")
  obtain ds2 n2 where r: "apply_ops failed (Suc i) (map upsert_model cs) ds1 = (ds2, n2)"
    by (cases "apply_ops failed (Suc i) (map upsert_model cs) ds1")
  from Cons.prems(1) nf u r have d: "ds' = ds2" by simp
  have "\<And>j. Suc i \<le> j \<Longrightarrow> j < Suc i + length cs \<Longrightarrow> j \<notin> set failed"
    using Cons.prems(2) by simp
  from Cons.IH [OF r this] apply_update_one_covers [OF u] d show ?case by auto
qed

lemma BulkWrite_covers:
  assumes "BulkWrite coll (map upsert_model cs) = (coll', res, None)" "cs \<noteq> []"
  shows "set (docs coll) \<subseteq> set (docs coll') \<and> key_of ` set cs \<subseteq> key_of ` set (docs coll')"
proof -
  define fault where "fault = (case faults coll of [] \<Rightarrow> no_fault | f # fs \<Rightarrow> f)"
  obtain ds' n where a: "apply_ops (failed_ops fault) 0 (map upsert_model cs) (docs coll) = (ds', n)"
    by (cases "apply_ops (failed_ops fault) 0 (map upsert_model cs) (docs coll)")
  from assms have enc: "list_all encodable (map upsert_model cs)"
    by (auto simp: BulkWrite_def Let_def split: if_splits)
  from assms enc a have c: "docs coll' = ds'"
    and f: "\<not> list_ex (\<lambda>i. i < length cs) (failed_ops fault)"
    by (auto simp: BulkWrite_def Let_def fault_def split: if_splits)
  from f have "\<And>j. 0 \<le> j \<Longrightarrow> j < 0 + length cs \<Longrightarrow> j \<notin> set (failed_ops fault)"
    by (auto simp: list_ex_iff)
  from apply_ops_covers [OF a this] c show ?thesis by simp
qed

lemma flushBatch_covers:
  assumes "flushBatch st = (st', e)" "batch st = map upsert_model cs"
    and "bulk_log (dcoll st') = bulk_log (dcoll st) @ calls"
    and "\<forall>call \<in> set calls. \<not> call_failed call"
  shows "batch st' = []
     \<and> set (docs (dcoll st)) \<subseteq> set (docs (dcoll st'))
     \<and> key_of ` set cs \<subseteq> key_of ` set (docs (dcoll st'))"
proof (cases "cs = []")
  case True
  with assms show ?thesis by (auto simp: flushBatch_def)
next
  case False
  obtain coll' res err where b: "BulkWrite (dcoll st) (map upsert_model cs) = (coll', res, err)"
    by (cases "BulkWrite (dcoll st) (map upsert_model cs)")
  from assms(1,2) False b have d: "dcoll st' = coll'" "batch st' = []"
    by (auto simp: flushBatch_def)
  have ne: "map upsert_model cs \<noteq> []" using False by simp
  from BulkWrite_effect [OF b ne]
  have "bulk_log coll' = bulk_log (dcoll st) @ [(map upsert_model cs, res, err)]" by blast
  with assms(3) d(1) have "calls = [(map upsert_model cs, res, err)]" by simp
  with assms(4) have "err = None" by (simp add: call_failed_def)
  with b have "BulkWrite (dcoll st) (map upsert_model cs) = (coll', res, None)" by simp
  from BulkWrite_covers [OF this False] d show ?thesis by simp
qed

lemma diff_effect_log:
  "diff_effect st ms st' \<Longrightarrow> \<exists>calls. bulk_log (dcoll st') = bulk_log (dcoll st) @ calls"
  unfolding diff_effect_def by blast

text \<open>The keys covered by a state: those stored and those of the pending batch.\<close>

lemma diff_loop_covers:
  "diff_loop keys bs now cs st = (st', e) \<Longrightarrow>
   batch st = map upsert_model ps \<Longrightarrow>
   bulk_log (dcoll st') = bulk_log (dcoll st) @ calls \<Longrightarrow>
   \<forall>call \<in> set calls. \<not> call_failed call \<Longrightarrow>
   \<exists>ps'. batch st' = map upsert_model ps'
     \<and> set (docs (dcoll st)) \<subseteq> set (docs (dcoll st'))
     \<and> key_of ` (set ps \<union> set cs) \<subseteq> keys \<union> key_of ` set (docs (dcoll st')) \<union> key_of ` set ps'"
proof (induction cs arbitrary: st st' e ps calls)
  case Nil
  then show ?case by (intro exI [of _ ps]) auto
next
  case (Cons c cs)
  show ?case
  proof (cases "key_of c \<in> keys")
    case True
    with Cons.prems have "diff_loop keys bs now cs st = (st', e)"
      by (simp add: key_of_def)
    from Cons.IH [OF this Cons.prems(2,3,4)] obtain ps' where
      "batch st' = map upsert_model ps'"
      "set (docs (dcoll st)) \<subseteq> set (docs (dcoll st'))"
      "key_of ` (set ps \<union> set cs) \<subseteq> keys \<union> key_of ` set (docs (dcoll st')) \<union> key_of ` set ps'"
      by blast
    with True show ?thesis by (intro exI [of _ ps']) auto
  next
    case False
    define c' where "c' = c\<lparr>UpdatedAt := now\<rparr>"
    define st1 where "st1 = st\<lparr>batch := batch st @ [upsert_model c'], prepared := prepared st + 1\<rparr>"
    have b1: "batch st1 = map upsert_model (ps @ [c'])"
      "docs (dcoll st1) = docs (dcoll st)" "bulk_log (dcoll st1) = bulk_log (dcoll st)"
      using Cons.prems(2) by (simp_all add: st1_def)
    have kc: "key_of c' = key_of c" by (simp add: c'_def)
    show ?thesis
    proof (cases "bs \<le> int (length (batch st1))")
      case flush: True
      obtain st2 e2 where f: "flushBatch st1 = (st2, e2)" by (cases "flushBatch st1")
      from flushBatch_effect [OF f] have e2: "e2 = None" and s2: "diff_effect st1 [] st2"
        by simp_all
      from Cons.prems(1) False flush f e2 have l: "diff_loop keys bs now cs st2 = (st', e)"
        by (simp add: key_of_def Let_def st1_def c'_def)
      from diff_effect_log [OF s2] obtain k1 where
        k1: "bulk_log (dcoll st2) = bulk_log (dcoll st1) @ k1" by blast
      from diff_loop_effect [OF l] have "diff_effect st2 (staged keys now cs) st'" by simp
      from diff_effect_log [OF this] obtain k2 where
        k2: "bulk_log (dcoll st') = bulk_log (dcoll st2) @ k2" by blast
      from k1 k2 b1(3) Cons.prems(3) have "calls = k1 @ k2" by simp
      with Cons.prems(4) have g1: "\<forall>call \<in> set k1. \<not> call_failed call"
        and g2: "\<forall>call \<in> set k2. \<not> call_failed call" by simp_all
      from flushBatch_covers [OF f b1(1) k1 g1] have c2:
        "batch st2 = map upsert_model []"
        "set (docs (dcoll st1)) \<subseteq> set (docs (dcoll st2))"
        "key_of ` set (ps @ [c']) \<subseteq> key_of ` set (docs (dcoll st2))" by simp_all
      from Cons.IH [OF l c2(1) k2 g2] obtain ps' where p:
        "batch st' = map upsert_model ps'"
        "set (docs (dcoll st2)) \<subseteq> set (docs (dcoll st'))"
        "key_of ` (set [] \<union> set cs) \<subseteq> keys \<union> key_of ` set (docs (dcoll st')) \<union> key_of ` set ps'"
        by blast
      have "key_of ` set (ps @ [c']) \<subseteq> key_of ` set (docs (dcoll st'))"
        using c2(3) p(2) by blast
      with p c2(2) b1(2) kc show ?thesis
        by (intro exI [of _ ps']) auto
    next
      case noflush: False
      with Cons.prems(1) False have l: "diff_loop keys bs now cs st1 = (st', e)"
        by (simp add: key_of_def Let_def st1_def c'_def)
      from Cons.prems(3) b1(3) have "bulk_log (dcoll st') = bulk_log (dcoll st1) @ calls"
        by simp
      from Cons.IH [OF l b1(1) this Cons.prems(4)] obtain ps' where p:
        "batch st' = map upsert_model ps'"
        "set (docs (dcoll st1)) \<subseteq> set (docs (dcoll st'))"
        "key_of ` (set (ps @ [c']) \<union> set cs) \<subseteq> keys \<union> key_of ` set (docs (dcoll st')) \<union> key_of ` set ps'"
        by blast
      with b1(2) kc show ?thesis
        by (intro exI [of _ ps']) auto
    qed
  qed
qed

lemma insertDiffClaims_covers:
  assumes "insertDiffClaims coll cs keys bs now = (st', e)"
    and "bulk_log (dcoll st') = bulk_log coll @ calls"
    and "\<forall>call \<in> set calls. \<not> call_failed call"
  shows "set (docs coll) \<subseteq> set (docs (dcoll st'))
     \<and> key_of ` set cs \<subseteq> keys \<union> key_of ` set (docs (dcoll st'))"
proof (cases "cs = []")
  case True
  with assms show ?thesis by (auto simp: insertDiffClaims_def)
next
  case False
  define st0 where "st0 = \<lparr>dcoll = coll, batch = [], inserted = 0, prepared = 0, warnings = 0\<rparr>"
  define bs' where "bs' = (if bs \<le> 0 then 2000 else bs)"
  obtain st1 e1 where l: "diff_loop keys bs' now cs st0 = (st1, e1)"
    by (cases "diff_loop keys bs' now cs st0")
  from diff_loop_effect [OF l] have e1: "e1 = None"
    and s1: "diff_effect st0 (staged keys now cs) st1" by simp_all
  obtain st2 e2 where f: "flushBatch st1 = (st2, e2)" by (cases "flushBatch st1")
  from flushBatch_effect [OF f] have e2: "e2 = None" and s2: "diff_effect st1 [] st2"
    by simp_all
  from assms(1) False l f e1 e2 have r: "st' = st2"
    by (simp add: insertDiffClaims_def Let_def st0_def bs'_def)
  from diff_effect_log [OF s1] obtain k1 where
    k1: "bulk_log (dcoll st1) = bulk_log (dcoll st0) @ k1" by blast
  from diff_effect_log [OF s2] obtain k2 where
    k2: "bulk_log (dcoll st2) = bulk_log (dcoll st1) @ k2" by blast
  have d0: "docs (dcoll st0) = docs coll" "bulk_log (dcoll st0) = bulk_log coll"
    by (simp_all add: st0_def)
  from k1 k2 d0(2) assms(2) r have "calls = k1 @ k2" by simp
  with assms(3) have g1: "\<forall>call \<in> set k1. \<not> call_failed call"
    and g2: "\<forall>call \<in> set k2. \<not> call_failed call" by simp_all
  have "batch st0 = map upsert_model []" by (simp add: st0_def)
  from diff_loop_covers [OF l this k1 g1] obtain ps' where p:
    "batch st1 = map upsert_model ps'"
    "set (docs (dcoll st0)) \<subseteq> set (docs (dcoll st1))"
    "key_of ` (set [] \<union> set cs) \<subseteq> keys \<union> key_of ` set (docs (dcoll st1)) \<union> key_of ` set ps'"
    by blast
  from flushBatch_covers [OF f p(1) k2 g2] have c2:
    "set (docs (dcoll st1)) \<subseteq> set (docs (dcoll st2))"
    "key_of ` set ps' \<subseteq> key_of ` set (docs (dcoll st2))" by simp_all
  have m: "key_of ` set (docs (dcoll st1)) \<subseteq> key_of ` set (docs (dcoll st2))"
    using c2(1) by (rule image_mono)
  have "key_of ` set cs \<subseteq> keys \<union> key_of ` set (docs (dcoll st2))"
    using p(3) m c2(2) by (simp only: set_simps Un_empty_left) blast
  moreover have "set (docs coll) \<subseteq> set (docs (dcoll st2))"
    using p(2) c2(1) d0 by auto
  ultimately show ?thesis using r by simp
qed

lemma diff_loop_all_known:
  "(\<And>c. c \<in> set cs \<Longrightarrow> key_of c \<in> keys) \<Longrightarrow> diff_loop keys bs now cs st = (st, None)"
  by (induction cs) (simp_all add: key_of_def)

lemma insertDiffClaims_all_known:
  assumes "\<And>c. c \<in> set cs \<Longrightarrow> key_of c \<in> keys"
  shows "insertDiffClaims coll cs keys bs now =
     (\<lparr>dcoll = coll, batch = [], inserted = 0, prepared = 0, warnings = 0\<rparr>, None)"
  using diff_loop_all_known [of cs keys, OF assms]
  by (simp add: insertDiffClaims_def Let_def flushBatch_def)

subsection \<open>The parser's loop\<close>

lemma filter_loop_map:
  "filter_loop sc A now recs =
     map (\<lambda>(k, c). DBClaim_of (case sc k of None \<Rightarrow> 0 | Some v \<Rightarrow> v) c now)
       (filter (\<lambda>(k, c). fc_Provider c \<in> A) recs)"
  by (induction recs) auto

lemma filter_loop_member:
  "d \<in> set (filter_loop sc A now recs) \<Longrightarrow>
   \<exists>k c. (k, c) \<in> set recs \<and> fc_Provider c \<in> A
     \<and> d = DBClaim_of (case sc k of None \<Rightarrow> 0 | Some v \<Rightarrow> v) c now"
  unfolding filter_loop_map by auto

lemma filter_loop_keeps:
  "(k, c) \<in> set recs \<Longrightarrow> fc_Provider c \<in> A \<Longrightarrow>
   DBClaim_of (case sc k of None \<Rightarrow> 0 | Some v \<Rightarrow> v) c now \<in> set (filter_loop sc A now recs)"
  unfolding filter_loop_map by force

lemma filter_loop_drops:
  "fc_Provider c \<notin> A \<Longrightarrow>
   filter_loop sc A now (xs @ (k, c) # ys) = filter_loop sc A now (xs @ ys)"
  unfolding filter_loop_map by simp

lemma ProviderID_DBClaim_of [simp]: "ProviderID (DBClaim_of i c now) = fc_Provider c"
  by (simp add: DBClaim_of_def)

lemma ClaimID_DBClaim_of [simp]: "ClaimID (DBClaim_of i c now) = i"
  by (simp add: DBClaim_of_def)

lemma key_of_DBClaim_of:
  "key_of (DBClaim_of i c now) = claimKey (fc_Provider c) (fc_Data c) (fc_Sector c) (fc_TermStart c)"
  by (simp add: DBClaim_of_def key_of_def)

subsection \<open>The loop over the miners\<close>

lemma active_loop_skips:
  assumes "StateMinerPower api m tsk = Inl e1
     \<or> StateLookupID api m tsk = Inl e2
     \<or> (StateLookupID api m tsk = Inr a \<and> IDFromAddress a = Inl e3)"
  shows "active_loop api tsk (ms1 @ m # ms2) A = active_loop api tsk (ms1 @ ms2) A"
proof (induction ms1 arbitrary: A)
  case Nil
  from assms show ?case by (auto split: sum.splits)
next
  case (Cons x xs)
  then show ?case by (simp split: sum.splits)
qed

subsection \<open>The shape of a run\<close>

lemma staged_member:
  "m \<in> set (staged keys now cs) \<Longrightarrow>
   \<exists>c \<in> set cs. key_of c \<notin> keys \<and> m = upsert_model (c\<lparr>UpdatedAt := now\<rparr>)"
  by (auto simp: staged_def)

lemma run_ingest:
  assumes "first_stat env = StatOK s0" "stability_loop (restat env) 0 s0 = Inr True"
    "loadActiveProviders api = Inr A" "A \<noteq> {}" "dump env = Decoded rpc" "read_fault coll = None"
  shows "\<exists>st. insertDiffClaims coll (filter_loop (sscan env) A (parse_time env) (Result rpc))
           (key_of ` set (docs coll)) bulkSize (insert_time env) = (st, None)
     \<and> runFromTodayDumpOnce env api coll bulkSize =
         \<lparr>run_err = None, run_coll = dcoll st,
          steps = [QueryChain, ParseFile, LoadKeys, InsertDiff, RemoveFile],
          file_removed = (remove_fault env = None), added = inserted st\<rparr>"
proof -
  define cs where "cs = filter_loop (sscan env) A (parse_time env) (Result rpc)"
  obtain st e where i: "insertDiffClaims coll cs (key_of ` set (docs coll)) bulkSize (insert_time env) = (st, e)"
    by (cases "insertDiffClaims coll cs (key_of ` set (docs coll)) bulkSize (insert_time env)")
  from insertDiffClaims_effect [OF i] have e: "e = None" by simp
  have p: "loadClaimsFromFileFiltered (sscan env) (dump env) A (parse_time env) = Inr cs"
    using assms(5) by (simp add: loadClaimsFromFileFiltered_def cs_def)
  have k: "loadAllClaimKeysFromDB coll = Inr (key_of ` set (docs coll))"
    using assms(6) by (simp add: loadAllClaimKeysFromDB_def keys_loop_eq)
  have "runFromTodayDumpOnce env api coll bulkSize =
         \<lparr>run_err = None, run_coll = dcoll st,
          steps = [QueryChain, ParseFile, LoadKeys, InsertDiff, RemoveFile],
          file_removed = (remove_fault env = None), added = inserted st\<rparr>"
    using assms(1-4) p k i e by (simp add: runFromTodayDumpOnce_def)
  with i e show ?thesis unfolding cs_def by blast
qed

lemma run_cases:
  "(\<exists>e ss. runFromTodayDumpOnce env api coll bulkSize = untouched e coll ss
       \<and> ss \<in> {[], [QueryChain], [QueryChain, ParseFile], [QueryChain, ParseFile, LoadKeys]})
   \<or> (\<exists>s0 A rpc. first_stat env = StatOK s0 \<and> stability_loop (restat env) 0 s0 = Inr True
         \<and> loadActiveProviders api = Inr A \<and> A \<noteq> {} \<and> dump env = Decoded rpc
         \<and> read_fault coll = None)"
proof (cases "first_stat env")
  case StatNotExist
  then show ?thesis by (simp add: runFromTodayDumpOnce_def untouched_def)
next
  case (StatFails err)
  then show ?thesis by (simp add: runFromTodayDumpOnce_def untouched_def)
next
  case (StatOK s0)
  show ?thesis
  proof (cases "stability_loop (restat env) 0 s0")
    case (Inl err)
    with StatOK show ?thesis by (simp add: runFromTodayDumpOnce_def untouched_def)
  next
    case (Inr st)
    show ?thesis
    proof (cases st)
      case False
      with StatOK Inr show ?thesis by (simp add: runFromTodayDumpOnce_def untouched_def)
    next
      case True
      show ?thesis
      proof (cases "loadActiveProviders api")
        case (Inl err)
        with StatOK Inr True show ?thesis
          by (simp add: runFromTodayDumpOnce_def untouched_def)
      next
        case A: (Inr A)
        show ?thesis
        proof (cases "A = {}")
          case True
          with StatOK Inr \<open>st\<close> A show ?thesis
            by (simp add: runFromTodayDumpOnce_def untouched_def)
        next
          case ne: False
          show ?thesis
          proof (cases "dump env")
            case (OpenFails err)
            with StatOK Inr \<open>st\<close> A ne show ?thesis
              by (simp add: runFromTodayDumpOnce_def untouched_def loadClaimsFromFileFiltered_def)
          next
            case (DecodeFails err)
            with StatOK Inr \<open>st\<close> A ne show ?thesis
              by (simp add: runFromTodayDumpOnce_def untouched_def loadClaimsFromFileFiltered_def)
          next
            case (Decoded rpc)
            show ?thesis
            proof (cases "read_fault coll")
              case None
              with StatOK Inr True A ne Decoded show ?thesis by simp
            next
              case (Some err)
              with StatOK Inr \<open>st\<close> A ne Decoded show ?thesis
                by (simp add: runFromTodayDumpOnce_def untouched_def loadClaimsFromFileFiltered_def
                    loadAllClaimKeysFromDB_def)
            qed
          qed
        qed
      qed
    qed
  qed
qed

text \<open>What any run does to the collection.\<close>

lemma run_effect:
  fixes env api coll bulkSize
  defines "r \<equiv> runFromTodayDumpOnce env api coll bulkSize"
  shows "\<exists>calls new.
      bulk_log (run_coll r) = bulk_log coll @ calls
      \<and> docs (run_coll r) = docs coll @ new
      \<and> added r = sum_list (map credited calls)
      \<and> added r \<le> int (length new)
      \<and> [] \<notin> set (map fst calls)
      \<and> (\<forall>m \<in> set (concat (map fst calls)).
            \<exists>c A. loadActiveProviders api = Inr A \<and> ProviderID c \<in> A
              \<and> key_of c \<notin> key_of ` set (docs coll)
              \<and> m = upsert_model (c\<lparr>UpdatedAt := insert_time env\<rparr>))
      \<and> (\<forall>d \<in> set new. \<exists>m \<in> set (concat (map fst calls)).
            d = SetOnInsert m \<and> \<not> list_ex (matches (Filter m)) (docs coll))"
proof -
  from run_cases [of env api coll bulkSize]
  consider e ss where "r = untouched e coll ss"
    | s0 A rpc where "first_stat env = StatOK s0" "stability_loop (restat env) 0 s0 = Inr True"
        "loadActiveProviders api = Inr A" "A \<noteq> {}" "dump env = Decoded rpc"
        "read_fault coll = None"
    unfolding r_def by blast
  then show ?thesis
  proof cases
    case 1
    then show ?thesis
      by (intro exI [of _ "[]"]) (simp add: untouched_def)
  next
    case 2
    define cs where "cs = filter_loop (sscan env) A (parse_time env) (Result rpc)"
    define keys where "keys = key_of ` set (docs coll)"
    from run_ingest [OF 2, of bulkSize] obtain st where
      i: "insertDiffClaims coll cs keys bulkSize (insert_time env) = (st, None)"
      and r: "r = \<lparr>run_err = None, run_coll = dcoll st,
          steps = [QueryChain, ParseFile, LoadKeys, InsertDiff, RemoveFile],
          file_removed = (remove_fault env = None), added = inserted st\<rparr>"
      unfolding r_def cs_def keys_def by blast
    from insertDiffClaims_effect [OF i] have b: "batch st = []"
      and eff: "diff_effect \<lparr>dcoll = coll, batch = [], inserted = 0, prepared = 0, warnings = 0\<rparr>
          (staged keys (insert_time env) cs) st" by simp_all
    from eff obtain calls new where e:
      "bulk_log (dcoll st) = bulk_log coll @ calls"
      "concat (map fst calls) @ batch st = staged keys (insert_time env) cs"
      "[] \<notin> set (map fst calls)"
      "docs (dcoll st) = docs coll @ new"
      "inserted st = sum_list (map credited calls)"
      "sum_list (map credited calls) \<le> int (length new)"
      "list_all (\<lambda>d. list_ex (\<lambda>m. d = SetOnInsert m
          \<and> \<not> list_ex (matches (Filter m)) (docs coll)) (staged keys (insert_time env) cs)) new"
      unfolding diff_effect_def by auto
    from e(2) b have cc: "concat (map fst calls) = staged keys (insert_time env) cs" by simp
    have m: "\<forall>m \<in> set (concat (map fst calls)).
            \<exists>c A. loadActiveProviders api = Inr A \<and> ProviderID c \<in> A
              \<and> key_of c \<notin> key_of ` set (docs coll)
              \<and> m = upsert_model (c\<lparr>UpdatedAt := insert_time env\<rparr>)"
    proof
      fix m assume "m \<in> set (concat (map fst calls))"
      with cc have "m \<in> set (staged keys (insert_time env) cs)" by simp
      from staged_member [OF this] obtain c where c: "c \<in> set cs" "key_of c \<notin> keys"
        "m = upsert_model (c\<lparr>UpdatedAt := insert_time env\<rparr>)" by blast
      from filter_loop_member [OF c(1) [unfolded cs_def]] have "ProviderID c \<in> A" by auto
      with c 2(3) show "\<exists>c A. loadActiveProviders api = Inr A \<and> ProviderID c \<in> A
              \<and> key_of c \<notin> key_of ` set (docs coll)
              \<and> m = upsert_model (c\<lparr>UpdatedAt := insert_time env\<rparr>)"
        unfolding keys_def by blast
    qed
    have d: "\<forall>d \<in> set new. \<exists>m \<in> set (concat (map fst calls)).
            d = SetOnInsert m \<and> \<not> list_ex (matches (Filter m)) (docs coll)"
      using e(7) unfolding cc by (auto simp: list_all_iff list_ex_iff)
    show ?thesis
      using e(1,3,4,5,6) m d by (intro exI [of _ calls] exI [of _ new]) (simp add: r)
  qed
qed

subsection \<open>The sample inputs evaluated\<close>

lemma sample_active: "loadActiveProviders sample_api = Inr {1001}"
  by (simp add: loadActiveProviders_def sample_api_def hasNonZeroPower_def)

lemma sample_stable: "stability_loop (restat sample_env) 0 100 = Inr True"
  by (rule stability_loop_same) (simp_all add: stableCheckRetries_def sample_env_def)

lemma growing_stable: "stability_loop (restat growing_env) 0 100 = Inr True"
proof -
  have "stability_loop (restat growing_env) 0 100 = stability_loop (restat growing_env) (Suc 0) 200"
    using stability_loop_changed [where i = 0 and rs = "restat growing_env" and s = 200 and prev = 100]
    by (simp add: stableCheckRetries_def growing_env_def)
  also have "\<dots> = stability_loop (restat growing_env) (Suc (Suc 0)) 300"
    using stability_loop_changed [where i = "Suc 0" and rs = "restat growing_env" and s = 300 and prev = 200]
    by (simp add: stableCheckRetries_def growing_env_def)
  also have "\<dots> = Inr True"
    by (rule stability_loop_same) (simp_all add: stableCheckRetries_def growing_env_def)
  finally show ?thesis .
qed

lemma dec_nat_1001: "dec_nat 1001 = ''1001''"
  by (simp add: dec_nat_small dec_nat_big digit_char_def)

lemma sample_claims:
  "loadClaimsFromFileFiltered (sscan sample_env) (dump sample_env) {1001} (parse_time sample_env) =
     Inr [docA\<lparr>UpdatedAt := 5\<rparr>, docB\<lparr>UpdatedAt := 5\<rparr>]"
  by (simp add: loadClaimsFromFileFiltered_def sample_rpc_def sample_sscan_def sample_env_def
      DBClaim_of_def docA_def docB_def dec_nat_1001)

lemma sample_insert_empty:
  "insertDiffClaims empty_coll [docA\<lparr>UpdatedAt := 5\<rparr>, docB\<lparr>UpdatedAt := 5\<rparr>] {} 2000 7 =
     (\<lparr>dcoll = \<lparr>docs = [docA, docB], faults = [], read_fault = None,
          bulk_log = [([upsert_model docA, upsert_model docB], Some \<lparr>UpsertedCount = 2\<rparr>, None)]\<rparr>,
        batch = [], inserted = 2, prepared = 2, warnings = 0\<rparr>, None)"
  by (simp add: insertDiffClaims_def flushBatch_def BulkWrite_def encodable_def maxInt64_def empty_coll_def no_fault_def
      apply_update_one_def upsert_model_def matches_def docA_def docB_def Let_def)


lemma sample_run:
  "runFromTodayDumpOnce sample_env sample_api empty_coll 2000 =
     \<lparr>run_err = None,
      run_coll = \<lparr>docs = [docA, docB], faults = [], read_fault = None,
          bulk_log = [([upsert_model docA, upsert_model docB], Some \<lparr>UpsertedCount = 2\<rparr>, None)]\<rparr>,
      steps = [QueryChain, ParseFile, LoadKeys, InsertDiff, RemoveFile],
      file_removed = True, added = 2\<rparr>"
proof -
  have f: "first_stat sample_env = StatOK 100" "insert_time sample_env = 7"
    "remove_fault sample_env = None"
    by (simp_all add: sample_env_def)
  have k: "loadAllClaimKeysFromDB empty_coll = Inr {}"
    by (simp add: loadAllClaimKeysFromDB_def empty_coll_def)
  show ?thesis
    by (simp add: runFromTodayDumpOnce_def f sample_stable sample_active sample_claims k
        sample_insert_empty)
qed

lemma partly_insert:
  "insertDiffClaims partly_failing_coll [docA\<lparr>UpdatedAt := 5\<rparr>, docB\<lparr>UpdatedAt := 5\<rparr>] {} 2000 7 =
     (\<lparr>dcoll = \<lparr>docs = [docA], faults = [], read_fault = None,
          bulk_log = [([upsert_model docA, upsert_model docB], Some \<lparr>UpsertedCount = 1\<rparr>,
                       Some (LibError ''bulk write exception''))]\<rparr>,
        batch = [], inserted = 1, prepared = 2, warnings = 1\<rparr>, None)"
  by (simp add: insertDiffClaims_def flushBatch_def BulkWrite_def encodable_def maxInt64_def empty_coll_def partly_failing_coll_def
      apply_update_one_def upsert_model_def matches_def docA_def docB_def Let_def)

lemma two_batches:
  "insertDiffClaims unreachable_coll [docA\<lparr>UpdatedAt := 5\<rparr>, docB\<lparr>UpdatedAt := 5\<rparr>] {} 1 7 =
     (\<lparr>dcoll = \<lparr>docs = [docB], faults = [], read_fault = None,
          bulk_log = [([upsert_model docA], None, Some (LibError ''bulk write exception'')),
                      ([upsert_model docB], Some \<lparr>UpsertedCount = 1\<rparr>, None)]\<rparr>,
        batch = [], inserted = 1, prepared = 2, warnings = 1\<rparr>, None)"
  by (simp add: insertDiffClaims_def flushBatch_def BulkWrite_def encodable_def maxInt64_def empty_coll_def unreachable_coll_def
      no_fault_def apply_update_one_def upsert_model_def matches_def docA_def docB_def Let_def)

lemma failing_insert:
  "insertDiffClaims failing_coll [docA\<lparr>UpdatedAt := 5\<rparr>, docB\<lparr>UpdatedAt := 5\<rparr>] {} 2000 7 =
     (\<lparr>dcoll = \<lparr>docs = [], faults = [], read_fault = None,
          bulk_log = [([upsert_model docA, upsert_model docB], Some \<lparr>UpsertedCount = 0\<rparr>,
                       Some (LibError ''bulk write exception''))]\<rparr>,
        batch = [], inserted = 0, prepared = 2, warnings = 1\<rparr>, None)"
  by (simp add: insertDiffClaims_def flushBatch_def BulkWrite_def encodable_def maxInt64_def empty_coll_def failing_coll_def
      apply_update_one_def upsert_model_def matches_def docA_def docB_def Let_def)

lemma second_insert_after_failure:
  "insertDiffClaims \<lparr>docs = [], faults = [], read_fault = None,
          bulk_log = [([upsert_model docA, upsert_model docB], Some \<lparr>UpsertedCount = 0\<rparr>,
                       Some (LibError ''bulk write exception''))]\<rparr>
      [docA\<lparr>UpdatedAt := 5\<rparr>, docB\<lparr>UpdatedAt := 5\<rparr>] {} 2000 7 =
     (\<lparr>dcoll = \<lparr>docs = [docA, docB], faults = [], read_fault = None,
          bulk_log = [([upsert_model docA, upsert_model docB], Some \<lparr>UpsertedCount = 0\<rparr>,
                       Some (LibError ''bulk write exception'')),
                      ([upsert_model docA, upsert_model docB], Some \<lparr>UpsertedCount = 2\<rparr>, None)]\<rparr>,
        batch = [], inserted = 2, prepared = 2, warnings = 0\<rparr>, None)"
  by (simp add: insertDiffClaims_def flushBatch_def BulkWrite_def encodable_def maxInt64_def no_fault_def
      apply_update_one_def upsert_model_def matches_def docA_def docB_def Let_def)

subsection \<open>Insert-only writes\<close>

lemma filter_loop_keys_mono:
  "set recs' \<subseteq> set recs \<Longrightarrow>
   key_of ` set (filter_loop sc' A now' recs') \<subseteq> key_of ` set (filter_loop sc A now recs)"
proof
  fix x assume sub: "set recs' \<subseteq> set recs" and "x \<in> key_of ` set (filter_loop sc' A now' recs')"
  then obtain d where d: "d \<in> set (filter_loop sc' A now' recs')" "x = key_of d" by blast
  from filter_loop_member [OF d(1)] obtain k c where kc: "(k, c) \<in> set recs'" "fc_Provider c \<in> A"
    "d = DBClaim_of (case sc' k of None \<Rightarrow> 0 | Some v \<Rightarrow> v) c now'" by blast
  from kc(1) sub have "(k, c) \<in> set recs" by blast
  from filter_loop_keeps [OF this kc(2), of sc now]
  have "DBClaim_of (case sc k of None \<Rightarrow> 0 | Some v \<Rightarrow> v) c now \<in> set (filter_loop sc A now recs)" .
  moreover have "x = key_of (DBClaim_of (case sc k of None \<Rightarrow> 0 | Some v \<Rightarrow> v) c now)"
    using d(2) kc(3) by (simp add: key_of_DBClaim_of)
  ultimately show "x \<in> key_of ` set (filter_loop sc A now recs)" by blast
qed

lemma run_effectE:
  obtains calls new where
    "bulk_log (run_coll (runFromTodayDumpOnce env api coll bulkSize)) = bulk_log coll @ calls"
    "docs (run_coll (runFromTodayDumpOnce env api coll bulkSize)) = docs coll @ new"
    "added (runFromTodayDumpOnce env api coll bulkSize) = sum_list (map credited calls)"
    "added (runFromTodayDumpOnce env api coll bulkSize) \<le> int (length new)"
    "[] \<notin> set (map fst calls)"
    "\<forall>m \<in> set (concat (map fst calls)).
        \<exists>c A. loadActiveProviders api = Inr A \<and> ProviderID c \<in> A
          \<and> key_of c \<notin> key_of ` set (docs coll)
          \<and> m = upsert_model (c\<lparr>UpdatedAt := insert_time env\<rparr>)"
    "\<forall>d \<in> set new. \<exists>m \<in> set (concat (map fst calls)).
        d = SetOnInsert m \<and> \<not> list_ex (matches (Filter m)) (docs coll)"
  using run_effect [of env api coll bulkSize] by (elim exE conjE) (rule that)

lemma matches_upsert_model: "matches (Filter (upsert_model c)) d \<longleftrightarrow> same_tuple d c"
  by (simp add: matches_def upsert_model_def same_tuple_def)

lemma same_tuple_sym: "same_tuple d c \<longleftrightarrow> same_tuple c d"
  by (auto simp: same_tuple_def)

lemma same_tuple_touch [simp]: "same_tuple d (c\<lparr>UpdatedAt := t\<rparr>) \<longleftrightarrow> same_tuple d c"
  by (simp add: same_tuple_def)

lemma insertDiffClaims_frame:
  assumes "insertDiffClaims coll cs keys bs now = (st, e)"
  shows "\<exists>new. docs (dcoll st) = docs coll @ new
     \<and> (\<forall>d \<in> set new. \<not> list_ex (same_tuple d) (docs coll))"
proof -
  from insertDiffClaims_effect [OF assms]
  have "diff_effect \<lparr>dcoll = coll, batch = [], inserted = 0, prepared = 0, warnings = 0\<rparr>
      (staged keys now cs) st" by simp
  then obtain new where n: "docs (dcoll st) = docs coll @ new"
    "list_all (\<lambda>d. list_ex (\<lambda>m. d = SetOnInsert m
        \<and> \<not> list_ex (matches (Filter m)) (docs coll)) (staged keys now cs)) new"
    unfolding diff_effect_def by auto
  have "\<forall>d \<in> set new. \<not> list_ex (same_tuple d) (docs coll)"
  proof
    fix d assume "d \<in> set new"
    with n(2) obtain m where m: "m \<in> set (staged keys now cs)" "d = SetOnInsert m"
      "\<not> list_ex (matches (Filter m)) (docs coll)"
      by (auto simp: list_all_iff list_ex_iff)
    from staged_member [OF m(1)] obtain c where c: "m = upsert_model (c\<lparr>UpdatedAt := now\<rparr>)"
      by blast
    from m(2) c have d: "d = c\<lparr>UpdatedAt := now\<rparr>" by (simp add: upsert_model_def)
    from m(3) c d have "\<not> list_ex (\<lambda>x. same_tuple x d) (docs coll)"
      by (simp add: matches_upsert_model list_ex_iff)
    then show "\<not> list_ex (same_tuple d) (docs coll)"
      using same_tuple_sym by (auto simp: list_ex_iff)
  qed
  with n(1) show ?thesis by blast
qed

text \<open>
  Claim C2. Insert-only semantics. The upsert the program builds for a claim whose
  uniqueness tuple matches a stored document leaves the store as it is and counts no
  insert. \<^verbatim>\<open>insertDiffClaims\<close>, whatever key set it is given, and therefore every run,
  only appends documents: every document stored before is still there afterwards, in its
  place and with every field as it was, \<^verbatim>\<open>updated_at\<close> included, and no appended document
  has the tuple of a document stored before.
\<close>

theorem insert_only:
  "(list_ex (same_tuple c) ds \<longrightarrow> apply_update_one ds (upsert_model c) = (ds, 0))
   \<and> (insertDiffClaims coll cs keys bs now = (st, e) \<longrightarrow>
        (\<exists>new. docs (dcoll st) = docs coll @ new
           \<and> (\<forall>d \<in> set new. \<not> list_ex (same_tuple d) (docs coll))))
   \<and> (\<exists>new. docs (run_coll (runFromTodayDumpOnce env api coll bs)) = docs coll @ new
           \<and> (\<forall>d \<in> set new. \<not> list_ex (same_tuple d) (docs coll)))"
proof (intro conjI impI)
  assume "list_ex (same_tuple c) ds"
  then have "list_ex (matches (Filter (upsert_model c))) ds"
    using same_tuple_sym by (auto simp: list_ex_iff matches_upsert_model)
  then show "apply_update_one ds (upsert_model c) = (ds, 0)"
    by (simp add: apply_update_one_def)
next
  assume "insertDiffClaims coll cs keys bs now = (st, e)"
  then show "\<exists>new. docs (dcoll st) = docs coll @ new
           \<and> (\<forall>d \<in> set new. \<not> list_ex (same_tuple d) (docs coll))"
    by (rule insertDiffClaims_frame)
next
  show "\<exists>new. docs (run_coll (runFromTodayDumpOnce env api coll bs)) = docs coll @ new
           \<and> (\<forall>d \<in> set new. \<not> list_ex (same_tuple d) (docs coll))"
  proof (rule run_effectE [of env api coll bs])
    fix calls :: "(UpdateOneModel list \<times> BulkWriteResult option \<times> error option) list"
      and new
    assume r: "docs (run_coll (runFromTodayDumpOnce env api coll bs)) = docs coll @ new"
      "\<forall>m \<in> set (concat (map fst calls)).
          \<exists>c A. loadActiveProviders api = Inr A \<and> ProviderID c \<in> A
            \<and> key_of c \<notin> key_of ` set (docs coll)
            \<and> m = upsert_model (c\<lparr>UpdatedAt := insert_time env\<rparr>)"
      "\<forall>d \<in> set new. \<exists>m \<in> set (concat (map fst calls)).
          d = SetOnInsert m \<and> \<not> list_ex (matches (Filter m)) (docs coll)"
    have "\<forall>d \<in> set new. \<not> list_ex (same_tuple d) (docs coll)"
    proof
      fix d assume "d \<in> set new"
      with r(3) obtain m where m: "m \<in> set (concat (map fst calls))" "d = SetOnInsert m"
        "\<not> list_ex (matches (Filter m)) (docs coll)" by blast
      from r(2) m(1) obtain c where c: "m = upsert_model (c\<lparr>UpdatedAt := insert_time env\<rparr>)"
        by blast
      from m(2) c have d: "d = c\<lparr>UpdatedAt := insert_time env\<rparr>" by (simp add: upsert_model_def)
      from m(3) c d have "\<not> list_ex (\<lambda>x. same_tuple x d) (docs coll)"
        by (simp add: matches_upsert_model list_ex_iff)
      then show "\<not> list_ex (same_tuple d) (docs coll)"
        using same_tuple_sym by (auto simp: list_ex_iff)
    qed
    with r(1) show ?thesis by blast
  qed
qed

theorem insert_only_witness:
  "apply_update_one [docA] (upsert_model (docA\<lparr>UpdatedAt := 9\<rparr>)) = ([docA], 0)
   \<and> take 1 (docs (run_coll (runFromTodayDumpOnce sample_env sample_api
         \<lparr>docs = [docA], faults = [], read_fault = None, bulk_log = []\<rparr> 2000))) = [docA]"
proof -
  have a: "apply_update_one [docA] (upsert_model (docA\<lparr>UpdatedAt := 9\<rparr>)) = ([docA], 0)"
    using insert_only [where c = "docA\<lparr>UpdatedAt := 9\<rparr>" and ds = "[docA]", THEN conjunct1]
    by (simp add: same_tuple_def)
  have "\<exists>new. docs (run_coll (runFromTodayDumpOnce sample_env sample_api
         \<lparr>docs = [docA], faults = [], read_fault = None, bulk_log = []\<rparr> 2000))
        = docs \<lparr>docs = [docA], faults = [], read_fault = None, bulk_log = []\<rparr> @ new
      \<and> (\<forall>d \<in> set new. \<not> list_ex (same_tuple d)
            (docs \<lparr>docs = [docA], faults = [], read_fault = None, bulk_log = []\<rparr>))"
    using insert_only [where env = sample_env and api = sample_api
      and coll = "\<lparr>docs = [docA], faults = [], read_fault = None, bulk_log = []\<rparr>"
      and bs = 2000, THEN conjunct2, THEN conjunct2] .
  then have "take 1 (docs (run_coll (runFromTodayDumpOnce sample_env sample_api
         \<lparr>docs = [docA], faults = [], read_fault = None, bulk_log = []\<rparr> 2000))) = [docA]"
    by auto
  with a show ?thesis by simp
qed

subsection \<open>Skipped runs\<close>

text \<open>
  Claim C8. A run whose dump file is absent, and a run whose dump file exists but shows a
  different size at each of the three polls of the stability loop (each differing from
  the size observed just before), returns no error and does nothing: no chain query, no
  parse, no read or write of the store, no removal of the file.
\<close>

theorem skippable_runs_are_not_failures:
  assumes "first_stat env = StatNotExist
     \<or> (\<exists>s0 s1 s2 s3. first_stat env = StatOK s0
           \<and> restat env 0 = StatOK s1 \<and> restat env 1 = StatOK s2 \<and> restat env 2 = StatOK s3
           \<and> s1 \<noteq> s0 \<and> s2 \<noteq> s1 \<and> s3 \<noteq> s2)"
  shows "runFromTodayDumpOnce env api coll bulkSize = untouched None coll []"
  using assms
proof
  assume "first_stat env = StatNotExist"
  then show ?thesis by (simp add: runFromTodayDumpOnce_def untouched_def)
next
  assume "\<exists>s0 s1 s2 s3. first_stat env = StatOK s0
           \<and> restat env 0 = StatOK s1 \<and> restat env 1 = StatOK s2 \<and> restat env 2 = StatOK s3
           \<and> s1 \<noteq> s0 \<and> s2 \<noteq> s1 \<and> s3 \<noteq> s2"
  then obtain s0 s1 s2 s3 where h: "first_stat env = StatOK s0"
    "restat env 0 = StatOK s1" "restat env 1 = StatOK s2" "restat env 2 = StatOK s3"
    "s1 \<noteq> s0" "s2 \<noteq> s1" "s3 \<noteq> s2" by blast
  have "stability_loop (restat env) 0 s0 = Inr False"
    using h stability_loop_all_changed [where rs = "restat env" and ?s0.0 = s0 and ?s1.0 = s1
        and ?s2.0 = s2 and ?s3.0 = s3]
    by simp
  with h show ?thesis by (simp add: runFromTodayDumpOnce_def untouched_def)
qed

theorem skippable_runs_are_not_failures_witness:
  "runFromTodayDumpOnce (sample_env\<lparr>first_stat := StatNotExist\<rparr>) sample_api empty_coll 2000
     = untouched None empty_coll []
   \<and> runFromTodayDumpOnce unstable_env sample_api empty_coll 2000 = untouched None empty_coll []"
proof -
  have a: "runFromTodayDumpOnce (sample_env\<lparr>first_stat := StatNotExist\<rparr>) sample_api empty_coll 2000
     = untouched None empty_coll []"
    using skippable_runs_are_not_failures [where env = "sample_env\<lparr>first_stat := StatNotExist\<rparr>"]
    by simp
  have "first_stat unstable_env = StatOK 100
      \<and> restat unstable_env 0 = StatOK 200 \<and> restat unstable_env 1 = StatOK 300
      \<and> restat unstable_env 2 = StatOK 400
      \<and> (200 :: int64) \<noteq> 100 \<and> (300 :: int64) \<noteq> 200 \<and> (400 :: int64) \<noteq> 300"
    by (simp add: unstable_env_def sample_env_def)
  then have "runFromTodayDumpOnce unstable_env sample_api empty_coll 2000 = untouched None empty_coll []"
    using skippable_runs_are_not_failures [where env = unstable_env] by blast
  with a show ?thesis by simp
qed

subsection \<open>An empty set of active providers\<close>

text \<open>
  Claim C9. When the dump file is stable and the active providers are loaded without error
  but the set is empty, the run returns no error right after the chain query: the dump is
  not parsed, the keys are not loaded, the collection is as before, and the file is not
  removed.
\<close>

theorem empty_active_set_short_circuits:
  assumes "first_stat env = StatOK s0" "stability_loop (restat env) 0 s0 = Inr True"
    "loadActiveProviders api = Inr {}"
  shows "runFromTodayDumpOnce env api coll bulkSize = untouched None coll [QueryChain]"
  using assms by (simp add: runFromTodayDumpOnce_def untouched_def)

theorem empty_active_set_short_circuits_witness:
  "loadActiveProviders (sample_api\<lparr>StateListMiners := (\<lambda>tsk. Inr [KeyAddress ''f1zero''])\<rparr>) = Inr {}
   \<and> runFromTodayDumpOnce sample_env (sample_api\<lparr>StateListMiners := (\<lambda>tsk. Inr [KeyAddress ''f1zero''])\<rparr>)
        empty_coll 2000 = untouched None empty_coll [QueryChain]"
proof -
  have a: "loadActiveProviders (sample_api\<lparr>StateListMiners := (\<lambda>tsk. Inr [KeyAddress ''f1zero''])\<rparr>) = Inr {}"
    by (simp add: loadActiveProviders_def sample_api_def hasNonZeroPower_def)
  have f: "first_stat sample_env = StatOK 100" by (simp add: sample_env_def)
  from empty_active_set_short_circuits [OF f sample_stable a] a show ?thesis by simp
qed

subsection \<open>The stability gate\<close>

text \<open>
  Claim C5, as stated, fails: a size change between two consecutive polls does not keep
  the file from being parsed. In the run below the file has size 100 at the first
  \<^verbatim>\<open>os.Stat\<close>, 200 at the first poll of the loop, 300 at the second and 300 at the third;
  the size changed between the first two observations and again between the next two, yet
  the run parses the file, writes, and removes the file.
\<close>

theorem stability_gate_counterexample:
  "observed growing_env 0 = StatOK 100 \<and> observed growing_env 1 = StatOK 200
   \<and> observed growing_env 2 = StatOK 300 \<and> observed growing_env 3 = StatOK 300
   \<and> steps (runFromTodayDumpOnce growing_env sample_api empty_coll 2000)
       = [QueryChain, ParseFile, LoadKeys, InsertDiff, RemoveFile]
   \<and> file_removed (runFromTodayDumpOnce growing_env sample_api empty_coll 2000)"
proof -
  have o: "observed growing_env 0 = StatOK 100 \<and> observed growing_env 1 = StatOK 200
   \<and> observed growing_env 2 = StatOK 300 \<and> observed growing_env 3 = StatOK 300"
    by (simp add: observed_def growing_env_def sample_env_def)
  have f: "first_stat growing_env = StatOK 100" "dump growing_env = Decoded sample_rpc"
    "remove_fault growing_env = None"
    by (simp_all add: growing_env_def sample_env_def)
  have ne: "{1001 :: uint64} \<noteq> {}" by simp
  have rf: "read_fault empty_coll = None" by (simp add: empty_coll_def)
  from run_ingest [OF f(1) growing_stable sample_active ne f(2) rf, of 2000] f(3) o
  show ?thesis by auto
qed

text \<open>
  Claim C5, amended. A change of size between two consecutive observations only postpones
  the decision to the next poll. Of the four observations (the first \<^verbatim>\<open>os.Stat\<close> and the
  three polls that follow), call a poll a repeat when it succeeds and shows the size
  observed just before it, and a change when it succeeds and shows another size. The run
  goes past the stability check, to the query of the chain and from there to the parse,
  exactly when one of the three polls is a repeat and every poll before it is a change;
  in particular a run that parses the file has seen such a repeat. The run is skipped (it
  returns no error, performs no step and leaves the file on disk) exactly when the file
  is absent at the first \<^verbatim>\<open>os.Stat\<close> or each of the three polls is a change.
\<close>

theorem stability_gate:
  "(QueryChain \<in> set (steps (runFromTodayDumpOnce env api coll bulkSize)) \<longleftrightarrow>
      (\<exists>k < 3. repeated env k \<and> (\<forall>j < k. changed env j)))
   \<and> (ParseFile \<in> set (steps (runFromTodayDumpOnce env api coll bulkSize)) \<longrightarrow>
      (\<exists>k < 3. repeated env k \<and> (\<forall>j < k. changed env j)))
   \<and> (runFromTodayDumpOnce env api coll bulkSize = untouched None coll [] \<longleftrightarrow>
      observed env 0 = StatNotExist \<or> (changed env 0 \<and> changed env 1 \<and> changed env 2))"
proof (intro conjI)
  show g: "QueryChain \<in> set (steps (runFromTodayDumpOnce env api coll bulkSize)) \<longleftrightarrow>
      (\<exists>k < 3. repeated env k \<and> (\<forall>j < k. changed env j))"
  proof (cases "first_stat env")
    case (StatOK s0)
    then show ?thesis
      unfolding gate_expand run_passes_gate using stability_loop_True_iff [OF StatOK] by simp
  next
    case StatNotExist
    then show ?thesis
      unfolding gate_expand run_passes_gate by (simp add: repeated_def changed_def observed_def)
  next
    case (StatFails e)
    then show ?thesis
      unfolding gate_expand run_passes_gate by (simp add: repeated_def changed_def observed_def)
  qed
  have "ParseFile \<in> set (steps (runFromTodayDumpOnce env api coll bulkSize)) \<longrightarrow>
      QueryChain \<in> set (steps (runFromTodayDumpOnce env api coll bulkSize))"
    using run_parse_only_if_stable [of env api coll bulkSize]
      run_passes_gate [of env api coll bulkSize]
    by blast
  with g show "ParseFile \<in> set (steps (runFromTodayDumpOnce env api coll bulkSize)) \<longrightarrow>
      (\<exists>k < 3. repeated env k \<and> (\<forall>j < k. changed env j))" by blast
  show "runFromTodayDumpOnce env api coll bulkSize = untouched None coll [] \<longleftrightarrow>
      observed env 0 = StatNotExist \<or> (changed env 0 \<and> changed env 1 \<and> changed env 2)"
  proof (cases "first_stat env")
    case (StatOK s0)
    then show ?thesis
      unfolding run_skipped using stability_loop_False_iff [OF StatOK]
      by (simp add: observed_def numeral_2_eq_2)
  next
    case StatNotExist
    then show ?thesis
      unfolding run_skipped by (simp add: observed_def)
  next
    case (StatFails e)
    then show ?thesis
      unfolding run_skipped by (simp add: changed_def observed_def)
  qed
qed

theorem stability_gate_witness:
  "repeated paused_env 0
   \<and> QueryChain \<in> set (steps (runFromTodayDumpOnce paused_env sample_api empty_coll 2000))
   \<and> ParseFile \<in> set (steps (runFromTodayDumpOnce growing_env sample_api empty_coll 2000))
   \<and> changed growing_env 0 \<and> changed growing_env 1 \<and> repeated growing_env 2
   \<and> changed unstable_env 0 \<and> changed unstable_env 1 \<and> changed unstable_env 2
   \<and> runFromTodayDumpOnce unstable_env sample_api empty_coll 2000 = untouched None empty_coll []"
proof -
  have p0: "repeated paused_env 0"
    by (simp add: repeated_def observed_def paused_env_def sample_env_def)
  then have "\<exists>k < 3. repeated paused_env k \<and> (\<forall>j < k. changed paused_env j)"
    by (intro exI [of _ 0]) simp
  with stability_gate [where env = paused_env and api = sample_api and coll = empty_coll
      and bulkSize = 2000, THEN conjunct1]
  have q: "QueryChain \<in> set (steps (runFromTodayDumpOnce paused_env sample_api empty_coll 2000))"
    by blast
  have f: "first_stat growing_env = StatOK 100" "dump growing_env = Decoded sample_rpc"
    by (simp_all add: growing_env_def sample_env_def)
  have ne: "{1001 :: uint64} \<noteq> {}" by simp
  have rf: "read_fault empty_coll = None" by (simp add: empty_coll_def)
  from run_ingest [OF f(1) growing_stable sample_active ne f(2) rf, of 2000]
  have p: "ParseFile \<in> set (steps (runFromTodayDumpOnce growing_env sample_api empty_coll 2000))"
    by auto
  with stability_gate [where env = growing_env and api = sample_api and coll = empty_coll
      and bulkSize = 2000, THEN conjunct2, THEN conjunct1]
  have "\<exists>k < 3. repeated growing_env k \<and> (\<forall>j < k. changed growing_env j)"
    by blast
  moreover have "\<not> repeated growing_env 0" "\<not> repeated growing_env (Suc 0)"
    by (simp_all add: repeated_def observed_def growing_env_def sample_env_def)
  ultimately have g: "changed growing_env 0 \<and> changed growing_env 1 \<and> repeated growing_env 2"
    unfolding gate_expand by (simp add: numeral_2_eq_2)
  have u: "changed unstable_env 0 \<and> changed unstable_env 1 \<and> changed unstable_env 2"
    by (simp add: changed_def observed_def unstable_env_def sample_env_def)
  with stability_gate [where env = unstable_env and api = sample_api and coll = empty_coll
      and bulkSize = 2000, THEN conjunct2, THEN conjunct2]
  have "runFromTodayDumpOnce unstable_env sample_api empty_coll 2000 = untouched None empty_coll []"
    by blast
  with p0 q p g u show ?thesis by blast
qed

subsection \<open>Errors while building the active-provider set\<close>

text \<open>
  Claim C7. A miner whose power lookup fails, whose id lookup fails, or whose resolved
  address yields no id is skipped and nothing else: the loop gives the same set as for
  the list of miners without it, and \<^verbatim>\<open>loadActiveProviders\<close> returns a set whenever the
  chain head and the list of miners were obtained. A failure to obtain the chain head or
  the list of miners makes \<^verbatim>\<open>loadActiveProviders\<close> return an error, and a run that has
  found a stable dump file then returns that error, wrapped, having parsed and written
  nothing.
\<close>

theorem active_provider_error_handling:
  "((StateMinerPower api m tsk = Inl e1
       \<or> StateLookupID api m tsk = Inl e2
       \<or> (StateLookupID api m tsk = Inr a \<and> IDFromAddress a = Inl e3)) \<longrightarrow>
      active_loop api tsk (ms1 @ m # ms2) A = active_loop api tsk (ms1 @ ms2) A)
   \<and> (ChainHead api = Inr head \<and> StateListMiners api (Key head) = Inr miners \<longrightarrow>
        loadActiveProviders api = Inr (active_loop api (Key head) miners {}))
   \<and> (ChainHead api = Inl e \<longrightarrow> loadActiveProviders api = Inl (Wrapped ''ChainHead'' e))
   \<and> (ChainHead api = Inr head \<and> StateListMiners api (Key head) = Inl e \<longrightarrow>
        loadActiveProviders api = Inl (Wrapped ''StateListMiners'' e))
   \<and> (first_stat env = StatOK s0 \<and> stability_loop (restat env) 0 s0 = Inr True
        \<and> loadActiveProviders api = Inl e' \<longrightarrow>
        runFromTodayDumpOnce env api coll bulkSize =
          untouched (Some (Wrapped ''load active providers'' e')) coll [QueryChain])"
proof (intro conjI impI)
  assume "StateMinerPower api m tsk = Inl e1
       \<or> StateLookupID api m tsk = Inl e2
       \<or> (StateLookupID api m tsk = Inr a \<and> IDFromAddress a = Inl e3)"
  then show "active_loop api tsk (ms1 @ m # ms2) A = active_loop api tsk (ms1 @ ms2) A"
    by (rule active_loop_skips)
next
  assume "ChainHead api = Inr head \<and> StateListMiners api (Key head) = Inr miners"
  then show "loadActiveProviders api = Inr (active_loop api (Key head) miners {})"
    by (simp add: loadActiveProviders_def)
next
  assume "ChainHead api = Inl e"
  then show "loadActiveProviders api = Inl (Wrapped ''ChainHead'' e)"
    by (simp add: loadActiveProviders_def)
next
  assume "ChainHead api = Inr head \<and> StateListMiners api (Key head) = Inl e"
  then show "loadActiveProviders api = Inl (Wrapped ''StateListMiners'' e)"
    by (simp add: loadActiveProviders_def)
next
  assume "first_stat env = StatOK s0 \<and> stability_loop (restat env) 0 s0 = Inr True
        \<and> loadActiveProviders api = Inl e'"
  then show "runFromTodayDumpOnce env api coll bulkSize =
          untouched (Some (Wrapped ''load active providers'' e')) coll [QueryChain]"
    by (simp add: runFromTodayDumpOnce_def untouched_def)
qed

theorem active_provider_error_handling_witness:
  "active_loop sample_api 1 [KeyAddress ''f1active'', KeyAddress ''f1zero'', KeyAddress ''f1broken''] {}
     = active_loop sample_api 1 [KeyAddress ''f1active'', KeyAddress ''f1zero''] {}
   \<and> loadActiveProviders sample_api = Inr {1001}
   \<and> runFromTodayDumpOnce sample_env (sample_api\<lparr>ChainHead := Inl (LibError ''rpc down'')\<rparr>)
        empty_coll 2000
      = untouched (Some (Wrapped ''load active providers'' (Wrapped ''ChainHead'' (LibError ''rpc down''))))
          empty_coll [QueryChain]"
proof -
  have p: "StateMinerPower sample_api (KeyAddress ''f1broken'') 1 = Inl (LibError ''power lookup failed'')"
    by (simp add: sample_api_def)
  have a: "active_loop sample_api 1
       ([KeyAddress ''f1active'', KeyAddress ''f1zero''] @ KeyAddress ''f1broken'' # []) {}
     = active_loop sample_api 1 ([KeyAddress ''f1active'', KeyAddress ''f1zero''] @ []) {}"
    using active_provider_error_handling [where api = sample_api and m = "KeyAddress ''f1broken''"
        and tsk = 1 and ?e1.0 = "LibError ''power lookup failed''"
        and ?ms1.0 = "[KeyAddress ''f1active'', KeyAddress ''f1zero'']" and ?ms2.0 = "[]" and A = "{}",
        THEN conjunct1] p
    by blast
  have h: "ChainHead sample_api = Inr \<lparr>Key = 1\<rparr>
      \<and> StateListMiners sample_api (Key \<lparr>Key = 1\<rparr>)
          = Inr [KeyAddress ''f1active'', KeyAddress ''f1zero'', KeyAddress ''f1broken'']"
    by (simp add: sample_api_def)
  have "loadActiveProviders sample_api
      = Inr (active_loop sample_api (Key \<lparr>Key = 1\<rparr>)
          [KeyAddress ''f1active'', KeyAddress ''f1zero'', KeyAddress ''f1broken''] {})"
    using active_provider_error_handling [where api = sample_api and head = "\<lparr>Key = 1\<rparr>"
        and miners = "[KeyAddress ''f1active'', KeyAddress ''f1zero'', KeyAddress ''f1broken'']",
        THEN conjunct2, THEN conjunct1] h
    by blast
  then have b: "loadActiveProviders sample_api = Inr {1001}"
    by (simp add: sample_api_def hasNonZeroPower_def)
  have c1: "ChainHead (sample_api\<lparr>ChainHead := Inl (LibError ''rpc down'')\<rparr>) = Inl (LibError ''rpc down'')"
    by simp
  have l: "loadActiveProviders (sample_api\<lparr>ChainHead := Inl (LibError ''rpc down'')\<rparr>)
      = Inl (Wrapped ''ChainHead'' (LibError ''rpc down''))"
    using active_provider_error_handling [where api = "sample_api\<lparr>ChainHead := Inl (LibError ''rpc down'')\<rparr>"
        and e = "LibError ''rpc down''", THEN conjunct2, THEN conjunct2, THEN conjunct1] c1
    by blast
  have f: "first_stat sample_env = StatOK 100" by (simp add: sample_env_def)
  have c: "runFromTodayDumpOnce sample_env (sample_api\<lparr>ChainHead := Inl (LibError ''rpc down'')\<rparr>)
        empty_coll 2000
      = untouched (Some (Wrapped ''load active providers'' (Wrapped ''ChainHead'' (LibError ''rpc down''))))
          empty_coll [QueryChain]"
    using active_provider_error_handling [where api = "sample_api\<lparr>ChainHead := Inl (LibError ''rpc down'')\<rparr>"
        and env = sample_env and ?s0.0 = 100 and e' = "Wrapped ''ChainHead'' (LibError ''rpc down'')"
        and coll = empty_coll and bulkSize = 2000,
        THEN conjunct2, THEN conjunct2, THEN conjunct2, THEN conjunct2] f sample_stable l
    by blast
  from a b c show ?thesis by simp
qed

subsection \<open>The scanner on keys\<close>

lemma SkipSpace_none: "space_len s = 0 \<Longrightarrow> SkipSpace s = s"
  by (subst SkipSpace.simps) simp

lemma SkipSpace_some: "space_len s \<noteq> 0 \<Longrightarrow> SkipSpace s = SkipSpace (drop (space_len s) s)"
  by (subst SkipSpace.simps) simp

lemma underscoreOK_underscore: "\<not> underscoreOK (CHR ''_'' # t)"
  by (simp add: underscoreOK_def Let_def)

lemma ParseUint0_underscore: "\<exists>e. ParseUint0 (CHR ''_'' # t) = Inl e"
  by (cases "digits_loop 10 0 (CHR ''_'' # t)")
    (simp_all add: ParseUint0_def underscoreOK_underscore del: digits_loop.simps)

lemma ParseInt0_underscore:
  "sg = [] \<or> sg = ''+'' \<or> sg = ''-'' \<Longrightarrow> \<exists>e. ParseInt0 (sg @ CHR ''_'' # t) = Inl e"
  using ParseUint0_underscore [of t] by (auto simp: ParseInt0_def)

lemma Sscan_no_leading_digit:
  assumes "no_leading_digit key"
  shows "Sscan key = None"
proof (cases "SkipSpace key = []")
  case True
  then show ?thesis by (simp add: Sscan_def scanInt_def)
next
  case False
  define s where "s = SkipSpace key"
  define sg where "sg = (if hd s \<in> set ''+-'' then [hd s] else [])"
  define s1 where "s1 = (if hd s \<in> set ''+-'' then tl s else s)"
  have sgc: "sg = [] \<or> sg = ''+'' \<or> sg = ''-''" by (auto simp: sg_def)
  have u: "unsigned_part key = s1"
    using False by (simp add: unsigned_part_def s_def s1_def)
  have sc: "Sscan key =
      (case scanBasePrefix s1 of
         (digits, prefix, haveDigits, s2) \<Rightarrow>
           (case scanNumber digits haveDigits s2 of
              None \<Rightarrow> None
            | Some tok \<Rightarrow>
                (case ParseInt0 (sg @ prefix @ tok) of Inl e \<Rightarrow> None | Inr i \<Rightarrow> Some i)))"
    unfolding Sscan_def scanInt_def Let_def s1_def sg_def s_def
    using False by (simp only: if_False)
  show ?thesis
  proof (cases s1)
    case Nil
    then show ?thesis by (simp add: sc scanBasePrefix_def scanNumber_def)
  next
    case (Cons c r)
    with assms u have nd: "c \<notin> set decimalDigits" by (simp add: no_leading_digit_def)
    then have nz: "c \<noteq> CHR ''0''" by (auto simp: decimalDigits_def)
    have bp: "scanBasePrefix s1 = (decimalDigits @ ''_'', [], False, s1)"
      using Cons nz by (simp add: scanBasePrefix_def)
    show ?thesis
    proof (cases "c = CHR ''_''")
      case False
      with nd Cons show ?thesis unfolding sc bp by (simp add: scanNumber_def)
    next
      case True
      then have "scanNumber (decimalDigits @ ''_'') False s1
          = Some (CHR ''_'' # takeWhile (\<lambda>c. c \<in> set (decimalDigits @ ''_'')) r)"
        using Cons by (simp add: scanNumber_def)
      moreover from ParseInt0_underscore [OF sgc] obtain e where
        "ParseInt0 (sg @ CHR ''_'' # takeWhile (\<lambda>c. c \<in> set (decimalDigits @ ''_'')) r) = Inl e"
        by blast
      ultimately show ?thesis unfolding sc bp by simp
    qed
  qed
qed

lemma digit_char_decimal: "d < 10 \<Longrightarrow> digit_char d \<in> set decimalDigits"
proof -
  assume "d < 10"
  then have "d \<in> {0, 1, 2, 3, 4, 5, 6, 7, 8, 9}" by auto
  then show ?thesis by (auto simp: digit_char_def decimalDigits_def)
qed

lemma dec_nat_decimal: "c \<in> set (dec_nat n) \<Longrightarrow> c \<in> set decimalDigits"
proof (induction n rule: dec_nat.induct)
  case (1 n)
  show ?case
  proof (cases "n < 10")
    case True
    with "1.prems" show ?thesis by (simp add: dec_nat_small digit_char_decimal)
  next
    case False
    with "1.prems" "1.IH" [OF False] show ?thesis
      by (auto simp: dec_nat_big digit_char_decimal)
  qed
qed

lemma hd_dec_nat_nonzero: "0 < n \<Longrightarrow> hd (dec_nat n) \<in> set ''123456789''"
proof (induction n rule: dec_nat.induct)
  case (1 n)
  show ?case
  proof (cases "n < 10")
    case True
    with "1.prems" have "n \<in> {1, 2, 3, 4, 5, 6, 7, 8, 9}" by auto
    then show ?thesis using True by (auto simp: dec_nat_small digit_char_def)
  next
    case False
    then have "0 < n div 10" by simp
    from "1.IH" [OF False this] False show ?thesis
      by (simp add: dec_nat_big dec_nat_not_Nil)
  qed
qed

lemma decimal_cases:
  "c \<in> set decimalDigits \<Longrightarrow>
   c = CHR ''0'' \<or> c = CHR ''1'' \<or> c = CHR ''2'' \<or> c = CHR ''3'' \<or> c = CHR ''4''
   \<or> c = CHR ''5'' \<or> c = CHR ''6'' \<or> c = CHR ''7'' \<or> c = CHR ''8'' \<or> c = CHR ''9''"
  by (simp add: decimalDigits_def)

lemma decimal_not_space: "c \<in> set decimalDigits \<Longrightarrow> space_len (c # s) = 0"
  by (drule decimal_cases, elim disjE) (simp_all add: space_len_def space_runes_def)

lemma decimal_digit_of:
  "c \<in> set decimalDigits \<Longrightarrow>
   c \<noteq> CHR ''_'' \<and> digit_of c = digit_val c \<and> (\<exists>d < 10. digit_val c = Some d)"
  by (drule decimal_cases, elim disjE) (simp_all add: digit_of_def digit_val_def)

lemma digits_loop_decimal:
  "(\<And>c. c \<in> set s \<Longrightarrow> c \<in> set decimalDigits) \<Longrightarrow> digits_loop 10 m s = parse_digits m s"
proof (induction s arbitrary: m)
  case Nil
  then show ?case by simp
next
  case (Cons c s)
  have "c \<in> set decimalDigits" using Cons.prems [of c] by simp
  from decimal_digit_of [OF this] obtain d where
    d: "c \<noteq> CHR ''_''" "digit_of c = Some d" "digit_val c = Some d" "d < 10" by auto
  have ih: "digits_loop 10 (m * 10 + d) s = parse_digits (m * 10 + d) s"
    using Cons.prems by (intro Cons.IH) simp
  show ?case
  proof (cases "maxUint64 < m * 10 + d")
    case True
    with d show ?thesis by simp
  next
    case False
    then have "\<not> maxUint64 div 10 + 1 \<le> m" by (simp add: maxUint64_def)
    with False d ih show ?thesis by simp
  qed
qed

lemma ParseUint0_dec_nat:
  assumes "0 < n" "n \<le> maxUint64"
  shows "ParseUint0 (dec_nat n) = Inr (of_nat n)"
proof -
  have h: "hd (dec_nat n) \<noteq> CHR ''0''"
    using hd_dec_nat_nonzero [OF assms(1)] by auto
  have u: "CHR ''_'' \<notin> set (dec_nat n)"
    using dec_nat_decimal [of "CHR ''_''" n] by (auto simp: decimalDigits_def)
  have "digits_loop 10 0 (dec_nat n) = Inr n"
    using digits_loop_decimal [of "dec_nat n" 0] dec_nat_decimal [of _ n]
      parse_digits_dec_nat [OF assms(2)] by simp
  with h u show ?thesis by (simp add: ParseUint0_def dec_nat_not_Nil)
qed

lemma ParseInt0_dec_nat:
  assumes "0 < n" "n < 2 ^ 63"
  shows "ParseInt0 (dec_nat n) = Inr (of_nat n)"
proof -
  obtain c cs where s: "dec_nat n = c # cs"
    using dec_nat_not_Nil [of n] by (cases "dec_nat n") auto
  obtain d where d: "d < 10" "hd (dec_nat n) = digit_char d"
    using hd_dec_nat_digit [of n] by auto
  with s have c: "c \<noteq> CHR ''+''" "c \<noteq> CHR ''-''"
    using digit_char_not_sign [of d] by auto
  from assms have le: "n \<le> maxUint64" by (simp add: maxUint64_def)
  have u: "ParseUint0 (c # cs) = Inr (of_nat n)"
    using ParseUint0_dec_nat [OF assms(1) le] s by simp
  have un: "unat (of_nat n :: 64 word) = n"
    using assms by (simp add: unat_of_nat_64)
  show ?thesis
    using assms by (simp add: ParseInt0_def s c u un)
qed

lemma Sscan_decimal_prefix:
  assumes "0 < n" "n < 2 ^ 63" "rest = [] \<or> hd rest \<notin> set (decimalDigits @ ''_'')"
  shows "Sscan (dec_nat n @ rest) = Some (of_nat n)"
proof -
  obtain c cs where s: "dec_nat n = c # cs"
    using dec_nat_not_Nil [of n] by (cases "dec_nat n") auto
  have cd: "c \<in> set decimalDigits" using dec_nat_decimal [of c n] s by simp
  have cz: "c \<in> set ''123456789''" using hd_dec_nat_nonzero [OF assms(1)] s by simp
  then have c0: "c \<noteq> CHR ''0''" "c \<noteq> CHR ''+''" "c \<noteq> CHR ''-''" by auto
  have sk: "SkipSpace (dec_nat n @ rest) = c # cs @ rest"
    using decimal_not_space [OF cd, of "cs @ rest"] by (simp add: s SkipSpace_none)
  have bp: "scanBasePrefix (c # cs @ rest) = (decimalDigits @ ''_'', [], False, c # cs @ rest)"
    using c0 by (simp add: scanBasePrefix_def)
  have tr: "takeWhile (\<lambda>c. c \<in> set (decimalDigits @ ''_'')) rest = []"
    using assms(3) by (cases rest) auto
  have "takeWhile (\<lambda>c. c \<in> set (decimalDigits @ ''_'')) (dec_nat n @ rest) = dec_nat n"
    using dec_nat_decimal [of _ n] tr by (subst takeWhile_append2) auto
  then have sn: "scanNumber (decimalDigits @ ''_'') False (c # cs @ rest) = Some (c # cs)"
    using cd by (simp add: scanNumber_def s)
  have "ParseInt0 (c # cs) = Inr (of_nat n)"
    using ParseInt0_dec_nat [OF assms(1,2)] s by simp
  then show ?thesis
    using c0 by (simp add: Sscan_def scanInt_def Let_def sk bp sn)
qed

lemma Sscan_12abc: "Sscan ''12abc'' = Some 12"
  by (simp add: Sscan_def scanInt_def scanBasePrefix_def scanNumber_def ParseInt0_def
      ParseUint0_def underscoreOK_def lower_def digit_of_def decimalDigits_def maxUint64_def
      Let_def SkipSpace_none space_len_def space_runes_def)

lemma Sscan_0x1F: "Sscan ''0x1F'' = Some 31"
  by (simp add: Sscan_def scanInt_def scanBasePrefix_def scanNumber_def ParseInt0_def
      ParseUint0_def underscoreOK_def lower_def digit_of_def hexadecimalDigits_def maxUint64_def
      Let_def SkipSpace_none space_len_def space_runes_def)

subsection \<open>The claim identifier of a key\<close>

text \<open>
  Claim C10, as stated, fails. The keys \<^verbatim>\<open>12abc\<close> and \<^verbatim>\<open>0x1F\<close> are no decimal
  integers (\<^verbatim>\<open>strconv.ParseInt\<close> in base 10 rejects both), yet \<^verbatim>\<open>fmt.Sscan\<close> reads the
  integer each starts with and ignores the rest: the records are produced with the claim
  identifiers 12 and 31, not 0.
\<close>

theorem claim_id_counterexample:
  "ParseInt ''12abc'' = Inl ErrSyntax \<and> ParseInt ''0x1F'' = Inl ErrSyntax
   \<and> fc_Provider claimA \<in> {1001} \<and> fc_Provider claimB \<in> {1001}
   \<and> loadClaimsFromFileFiltered Sscan (Decoded prefixed_rpc) {1001} 5
       = Inr [DBClaim_of 12 claimA 5, DBClaim_of 31 claimB 5]
   \<and> ClaimID (DBClaim_of 12 claimA 5) = 12 \<and> ClaimID (DBClaim_of 31 claimB 5) = 31"
  by (simp add: ParseInt_def ParseUint_def digit_val_def maxUint64_def
      loadClaimsFromFileFiltered_def prefixed_rpc_def claimA_def claimB_def Sscan_12abc Sscan_0x1F)

text \<open>
  Claim C10, amended. No key fails the parse: for every record of a decoded dump whose
  provider is active, whatever its key, parsing succeeds and the record is produced, with
  the claim identifier that \<^verbatim>\<open>fmt.Sscan\<close> stores, 0 when it reports an error. The
  identifier is 0 when, after leading white space and one optional sign, the key does not
  go on with a decimal digit. It is \<open>n\<close> when the key is the decimal text of \<open>n\<close>, with
  \<open>0 < n < 2 ^ 63\<close>, followed by nothing or by text that starts with neither a digit nor
  an underscore. A run that has a stable file, the active providers, the decoded dump and
  the stored keys returns no error, whatever the keys.
\<close>

theorem claim_id_of_key:
  assumes "(claimIDStr, c) \<in> set (Result rpc)" "fc_Provider c \<in> active"
  shows "(\<exists>out. loadClaimsFromFileFiltered Sscan (Decoded rpc) active now = Inr out
            \<and> DBClaim_of (case Sscan claimIDStr of None \<Rightarrow> 0 | Some v \<Rightarrow> v) c now \<in> set out
            \<and> (no_leading_digit claimIDStr \<longrightarrow>
                  Sscan claimIDStr = None \<and> DBClaim_of 0 c now \<in> set out)
            \<and> (\<forall>n rest. 0 < n \<and> n < 2 ^ 63 \<and> claimIDStr = dec_nat n @ rest
                    \<and> (rest = [] \<or> hd rest \<notin> set (decimalDigits @ ''_'')) \<longrightarrow>
                  Sscan claimIDStr = Some (of_nat n)
                  \<and> DBClaim_of (of_nat n) c now \<in> set out))
     \<and> (first_stat env = StatOK s0 \<and> stability_loop (restat env) 0 s0 = Inr True
          \<and> loadActiveProviders api = Inr active \<and> sscan env = Sscan \<and> dump env = Decoded rpc
          \<and> read_fault coll = None \<longrightarrow>
          run_err (runFromTodayDumpOnce env api coll bulkSize) = None)"
proof (intro conjI impI)
  have k: "DBClaim_of (case Sscan claimIDStr of None \<Rightarrow> 0 | Some v \<Rightarrow> v) c now
      \<in> set (filter_loop Sscan active now (Result rpc))"
    using filter_loop_keeps [OF assms(1,2), of Sscan now] .
  have z: "no_leading_digit claimIDStr \<longrightarrow>
      Sscan claimIDStr = None
      \<and> DBClaim_of 0 c now \<in> set (filter_loop Sscan active now (Result rpc))"
  proof
    assume "no_leading_digit claimIDStr"
    from Sscan_no_leading_digit [OF this] k
    show "Sscan claimIDStr = None
      \<and> DBClaim_of 0 c now \<in> set (filter_loop Sscan active now (Result rpc))" by simp
  qed
  have d: "\<forall>n rest. 0 < n \<and> n < 2 ^ 63 \<and> claimIDStr = dec_nat n @ rest
                    \<and> (rest = [] \<or> hd rest \<notin> set (decimalDigits @ ''_'')) \<longrightarrow>
      Sscan claimIDStr = Some (of_nat n)
      \<and> DBClaim_of (of_nat n) c now \<in> set (filter_loop Sscan active now (Result rpc))"
  proof (intro allI impI)
    fix n rest
    assume h: "0 < n \<and> n < 2 ^ 63 \<and> claimIDStr = dec_nat n @ rest
        \<and> (rest = [] \<or> hd rest \<notin> set (decimalDigits @ ''_''))"
    then have "Sscan (dec_nat n @ rest) = Some (of_nat n)"
      by (intro Sscan_decimal_prefix) simp_all
    with h k show "Sscan claimIDStr = Some (of_nat n)
      \<and> DBClaim_of (of_nat n) c now \<in> set (filter_loop Sscan active now (Result rpc))"
      by simp
  qed
  show "\<exists>out. loadClaimsFromFileFiltered Sscan (Decoded rpc) active now = Inr out
            \<and> DBClaim_of (case Sscan claimIDStr of None \<Rightarrow> 0 | Some v \<Rightarrow> v) c now \<in> set out
            \<and> (no_leading_digit claimIDStr \<longrightarrow>
                  Sscan claimIDStr = None \<and> DBClaim_of 0 c now \<in> set out)
            \<and> (\<forall>n rest. 0 < n \<and> n < 2 ^ 63 \<and> claimIDStr = dec_nat n @ rest
                    \<and> (rest = [] \<or> hd rest \<notin> set (decimalDigits @ ''_'')) \<longrightarrow>
                  Sscan claimIDStr = Some (of_nat n)
                  \<and> DBClaim_of (of_nat n) c now \<in> set out)"
  proof (intro exI [of _ "filter_loop Sscan active now (Result rpc)"] conjI)
    show "loadClaimsFromFileFiltered Sscan (Decoded rpc) active now
        = Inr (filter_loop Sscan active now (Result rpc))"
      by (simp add: loadClaimsFromFileFiltered_def)
  qed (rule k z d)+
next
  assume h: "first_stat env = StatOK s0 \<and> stability_loop (restat env) 0 s0 = Inr True
          \<and> loadActiveProviders api = Inr active \<and> sscan env = Sscan \<and> dump env = Decoded rpc
          \<and> read_fault coll = None"
  have ne: "active \<noteq> {}" using assms(2) by auto
  from h have "first_stat env = StatOK s0" "stability_loop (restat env) 0 s0 = Inr True"
    "loadActiveProviders api = Inr active" "dump env = Decoded rpc" "read_fault coll = None"
    by simp_all
  from run_ingest [OF this(1,2,3) ne this(4,5), of bulkSize]
  show "run_err (runFromTodayDumpOnce env api coll bulkSize) = None" by auto
qed

theorem claim_id_of_key_witness:
  "no_leading_digit ''abc''
   \<and> (\<exists>out. loadClaimsFromFileFiltered Sscan (Decoded sample_rpc) {1001} 5 = Inr out
        \<and> DBClaim_of 0 (snd (Result sample_rpc ! 1)) 5 \<in> set out)
   \<and> ''12abc'' = dec_nat 12 @ ''abc''
   \<and> (\<exists>out. loadClaimsFromFileFiltered Sscan (Decoded prefixed_rpc) {1001} 5 = Inr out
        \<and> DBClaim_of 12 claimA 5 \<in> set out)
   \<and> run_err (runFromTodayDumpOnce (sample_env\<lparr>sscan := Sscan\<rparr>) sample_api empty_coll 2000)
       = None"
proof -
  have a: "(''abc'', snd (Result sample_rpc ! 1)) \<in> set (Result sample_rpc)"
    by (simp add: sample_rpc_def)
  have p: "fc_Provider (snd (Result sample_rpc ! 1)) \<in> {1001}" by (simp add: sample_rpc_def)
  have n: "no_leading_digit ''abc''"
    by (simp add: no_leading_digit_def unsigned_part_def decimalDigits_def SkipSpace_none
        space_len_def space_runes_def)
  note t1 = claim_id_of_key [OF a p, where now = 5 and env = "sample_env\<lparr>sscan := Sscan\<rparr>"
      and ?s0.0 = 100 and api = sample_api and coll = empty_coll and bulkSize = 2000]
  from t1 [THEN conjunct1] n
  have w1: "\<exists>out. loadClaimsFromFileFiltered Sscan (Decoded sample_rpc) {1001} 5 = Inr out
        \<and> DBClaim_of 0 (snd (Result sample_rpc ! 1)) 5 \<in> set out"
    by blast
  have "first_stat (sample_env\<lparr>sscan := Sscan\<rparr>) = StatOK 100"
    "stability_loop (restat (sample_env\<lparr>sscan := Sscan\<rparr>)) 0 100 = Inr True"
    "sscan (sample_env\<lparr>sscan := Sscan\<rparr>) = Sscan"
    "dump (sample_env\<lparr>sscan := Sscan\<rparr>) = Decoded sample_rpc"
    "read_fault empty_coll = None"
    using sample_stable by (simp_all add: sample_env_def empty_coll_def)
  with t1 [THEN conjunct2] sample_active
  have w3: "run_err (runFromTodayDumpOnce (sample_env\<lparr>sscan := Sscan\<rparr>) sample_api
      empty_coll 2000) = None"
    by blast
  have b: "(''12abc'', claimA) \<in> set (Result prefixed_rpc)" by (simp add: prefixed_rpc_def)
  have q: "fc_Provider claimA \<in> {1001}" by (simp add: claimA_def)
  have e: "''12abc'' = dec_nat 12 @ ''abc''"
    by (simp add: dec_nat_small dec_nat_big digit_char_def)
  have r: "(0::nat) < 12 \<and> (12::nat) < 2 ^ 63 \<and> ''12abc'' = dec_nat 12 @ ''abc''
      \<and> (''abc'' = [] \<or> hd ''abc'' \<notin> set (decimalDigits @ ''_''))"
    using e by (simp add: decimalDigits_def)
  from claim_id_of_key [OF b q, where now = 5, THEN conjunct1] obtain out where out:
    "loadClaimsFromFileFiltered Sscan (Decoded prefixed_rpc) {1001} 5 = Inr out"
    "\<forall>n rest. 0 < n \<and> n < 2 ^ 63 \<and> ''12abc'' = dec_nat n @ rest
        \<and> (rest = [] \<or> hd rest \<notin> set (decimalDigits @ ''_'')) \<longrightarrow>
      Sscan ''12abc'' = Some (of_nat n) \<and> DBClaim_of (of_nat n) claimA 5 \<in> set out"
    by blast
  from out(2) [rule_format, of 12 "''abc''", OF r]
  have "DBClaim_of 12 claimA 5 \<in> set out" by simp
  with out(1)
  have w2: "\<exists>out. loadClaimsFromFileFiltered Sscan (Decoded prefixed_rpc) {1001} 5 = Inr out
        \<and> DBClaim_of 12 claimA 5 \<in> set out"
    by blast
  from n w1 e w2 w3 show ?thesis by blast
qed

subsection \<open>Only active providers are written\<close>

text \<open>
  Claim C3. In every run, every document the run adds to the collection and every write
  model it submits carries a provider id that is in the set \<^verbatim>\<open>loadActiveProviders\<close>
  returned in that run; when that call fails the run adds and submits nothing. A dump
  record whose provider is not in the set is dropped by \<^verbatim>\<open>loadClaimsFromFileFiltered\<close>
  without any error: the result is the one for the dump without that record, and every
  claim in the result has an active provider.
\<close>

theorem filter_correctness:
  assumes "r = runFromTodayDumpOnce env api coll bulkSize"
    and "docs (run_coll r) = docs coll @ new"
    and "bulk_log (run_coll r) = bulk_log coll @ calls"
  shows "(loadActiveProviders api = Inr A \<longrightarrow>
            (\<forall>d \<in> set new. ProviderID d \<in> A)
            \<and> (\<forall>call \<in> set calls. \<forall>m \<in> set (fst call). ProviderID (SetOnInsert m) \<in> A))
     \<and> (loadActiveProviders api = Inl e \<longrightarrow> new = [] \<and> calls = [])
     \<and> (fc_Provider c \<notin> A' \<longrightarrow>
          loadClaimsFromFileFiltered sc (Decoded (rpc\<lparr>Result := xs @ (k, c) # ys\<rparr>)) A' now
            = loadClaimsFromFileFiltered sc (Decoded (rpc\<lparr>Result := xs @ ys\<rparr>)) A' now)
     \<and> (\<exists>out. loadClaimsFromFileFiltered sc (Decoded rpc) A' now = Inr out
            \<and> (\<forall>d \<in> set out. ProviderID d \<in> A'))"
proof (rule run_effectE [of env api coll bulkSize])
  fix calls' :: "(UpdateOneModel list \<times> BulkWriteResult option \<times> error option) list"
    and new'
  assume e: "bulk_log (run_coll (runFromTodayDumpOnce env api coll bulkSize)) = bulk_log coll @ calls'"
    "docs (run_coll (runFromTodayDumpOnce env api coll bulkSize)) = docs coll @ new'"
    "[] \<notin> set (map fst calls')"
    "\<forall>m \<in> set (concat (map fst calls')).
        \<exists>c A. loadActiveProviders api = Inr A \<and> ProviderID c \<in> A
          \<and> key_of c \<notin> key_of ` set (docs coll)
          \<and> m = upsert_model (c\<lparr>UpdatedAt := insert_time env\<rparr>)"
    "\<forall>d \<in> set new'. \<exists>m \<in> set (concat (map fst calls')).
        d = SetOnInsert m \<and> \<not> list_ex (matches (Filter m)) (docs coll)"
  from e(1,2) assms have eq: "calls' = calls" "new' = new" by simp_all
  have models: "\<exists>A. loadActiveProviders api = Inr A \<and> ProviderID (SetOnInsert m) \<in> A"
    if "m \<in> set (concat (map fst calls))" for m
  proof -
    from that e(4) eq obtain c A where "loadActiveProviders api = Inr A" "ProviderID c \<in> A"
      "m = upsert_model (c\<lparr>UpdatedAt := insert_time env\<rparr>)" by blast
    then show ?thesis by (auto simp: upsert_model_def)
  qed
  have newdocs: "\<exists>m \<in> set (concat (map fst calls)). d = SetOnInsert m" if "d \<in> set new" for d
    using that e(5) eq by blast
  have 1: "(\<forall>d \<in> set new. ProviderID d \<in> A)
      \<and> (\<forall>call \<in> set calls. \<forall>m \<in> set (fst call). ProviderID (SetOnInsert m) \<in> A)"
    if a: "loadActiveProviders api = Inr A"
  proof (intro conjI ballI)
    fix d assume "d \<in> set new"
    from newdocs [OF this] obtain m where m: "m \<in> set (concat (map fst calls))" "d = SetOnInsert m"
      by blast
    from models [OF m(1)] a m(2) show "ProviderID d \<in> A" by auto
  next
    fix call m assume "call \<in> set calls" "m \<in> set (fst call)"
    then have "m \<in> set (concat (map fst calls))" by auto
    from models [OF this] a show "ProviderID (SetOnInsert m) \<in> A" by auto
  qed
  have 2: "new = [] \<and> calls = []" if a: "loadActiveProviders api = Inl e"
  proof -
    have c: "concat (map fst calls) = []"
    proof (rule ccontr)
      assume "concat (map fst calls) \<noteq> []"
      then obtain m where "m \<in> set (concat (map fst calls))"
        by (cases "concat (map fst calls)") auto
      from models [OF this] a show False by simp
    qed
    have "calls = []"
    proof (cases calls)
      case Nil
      then show ?thesis .
    next
      case (Cons x xs)
      with c have "fst x = []" by simp
      with Cons e(3) eq show ?thesis by force
    qed
    moreover have "new = []"
    proof (cases new)
      case Nil
      then show ?thesis .
    next
      case (Cons d ds)
      then have "d \<in> set new" by simp
      from newdocs [OF this] c show ?thesis by simp
    qed
    ultimately show ?thesis by simp
  qed
  have 3: "loadClaimsFromFileFiltered sc (Decoded (rpc\<lparr>Result := xs @ (k, c) # ys\<rparr>)) A' now
            = loadClaimsFromFileFiltered sc (Decoded (rpc\<lparr>Result := xs @ ys\<rparr>)) A' now"
    if "fc_Provider c \<notin> A'"
    using that by (simp add: loadClaimsFromFileFiltered_def filter_loop_drops)
  have 4: "\<exists>out. loadClaimsFromFileFiltered sc (Decoded rpc) A' now = Inr out
            \<and> (\<forall>d \<in> set out. ProviderID d \<in> A')"
  proof -
    have "ProviderID d \<in> A'" if "d \<in> set (filter_loop sc A' now (Result rpc))" for d
      using filter_loop_member [OF that] by auto
    then show ?thesis by (simp add: loadClaimsFromFileFiltered_def)
  qed
  from 1 2 3 4 show ?thesis by blast
qed


theorem filter_correctness_witness:
  "loadActiveProviders sample_api = Inr {1001}
   \<and> docs (run_coll (runFromTodayDumpOnce sample_env sample_api empty_coll 2000)) = [docA, docB]
   \<and> ProviderID ` set (docs (run_coll (runFromTodayDumpOnce sample_env sample_api empty_coll 2000)))
        \<subseteq> {1001}
   \<and> fc_Provider (snd (Result sample_rpc ! 2)) \<notin> {1001 :: uint64}"
proof -
  define r where "r = runFromTodayDumpOnce sample_env sample_api empty_coll 2000"
  have d: "docs (run_coll r) = docs empty_coll @ docs (run_coll r)"
    and b: "bulk_log (run_coll r) = bulk_log empty_coll @ bulk_log (run_coll r)"
    by (simp_all add: empty_coll_def)
  from filter_correctness [OF r_def d b, where A = "{1001}", THEN conjunct1] sample_active
  have "\<forall>d \<in> set (docs (run_coll r)). ProviderID d \<in> {1001}" by blast
  then have s: "ProviderID ` set (docs (run_coll r)) \<subseteq> {1001}" by blast
  have e: "docs (run_coll r) = [docA, docB]" by (simp add: r_def sample_run)
  have n: "fc_Provider (snd (Result sample_rpc ! 2)) \<notin> {1001 :: uint64}"
    by (simp add: sample_rpc_def)
  from sample_active s e n show ?thesis unfolding r_def by blast
qed

subsection \<open>Batch sizes\<close>

lemma flushBatch_sizes:
  assumes "flushBatch st = (st', e)"
  shows "batch st' = []
     \<and> (\<exists>calls. bulk_log (dcoll st') = bulk_log (dcoll st) @ calls
           \<and> (\<forall>call \<in> set calls. fst call = batch st))"
proof (cases "batch st = []")
  case True
  with assms have "st' = st" by (simp add: flushBatch_def)
  with True show ?thesis by simp
next
  case False
  obtain coll' res err where b: "BulkWrite (dcoll st) (batch st) = (coll', res, err)"
    by (cases "BulkWrite (dcoll st) (batch st)")
  from BulkWrite_effect [OF b False]
  have l: "bulk_log coll' = bulk_log (dcoll st) @ [(batch st, res, err)]" by blast
  from assms False b have "dcoll st' = coll'" "batch st' = []"
    by (auto simp: flushBatch_def)
  with l show ?thesis by simp
qed

lemma diff_loop_sizes:
  "diff_loop keys bs now cs st = (st', e) \<Longrightarrow> 0 < bs \<Longrightarrow> int (length (batch st)) < bs \<Longrightarrow>
   int (length (batch st')) < bs
   \<and> (\<exists>calls. bulk_log (dcoll st') = bulk_log (dcoll st) @ calls
         \<and> (\<forall>call \<in> set calls. int (length (fst call)) = bs))"
proof (induction cs arbitrary: st st' e)
  case Nil
  then show ?case by simp
next
  case (Cons c cs)
  show ?case
  proof (cases "key_of c \<in> keys")
    case True
    with Cons.prems(1) have "diff_loop keys bs now cs st = (st', e)"
      by (simp add: key_of_def)
    from Cons.IH [OF this Cons.prems(2,3)] show ?thesis .
  next
    case False
    define st1 where "st1 = st\<lparr>batch := batch st @ [upsert_model (c\<lparr>UpdatedAt := now\<rparr>)],
        prepared := prepared st + 1\<rparr>"
    have l1: "int (length (batch st1)) = int (length (batch st)) + 1"
      "bulk_log (dcoll st1) = bulk_log (dcoll st)"
      by (simp_all add: st1_def)
    show ?thesis
    proof (cases "bs \<le> int (length (batch st1))")
      case flush: True
      with l1 Cons.prems(3) have full: "int (length (batch st1)) = bs" by simp
      obtain st2 e2 where f: "flushBatch st1 = (st2, e2)" by (cases "flushBatch st1")
      from flushBatch_effect [OF f] have e2: "e2 = None" by simp
      from flushBatch_sizes [OF f] obtain calls1 where c1: "batch st2 = []"
        "bulk_log (dcoll st2) = bulk_log (dcoll st1) @ calls1"
        "\<forall>call \<in> set calls1. fst call = batch st1" by blast
      from Cons.prems(1) False flush f e2 have "diff_loop keys bs now cs st2 = (st', e)"
        by (simp add: key_of_def Let_def st1_def)
      moreover have "int (length (batch st2)) < bs" using c1(1) Cons.prems(2) by simp
      ultimately obtain calls2 where c2: "int (length (batch st')) < bs"
        "bulk_log (dcoll st') = bulk_log (dcoll st2) @ calls2"
        "\<forall>call \<in> set calls2. int (length (fst call)) = bs"
        using Cons.IH [of st2 st' e] Cons.prems(2) by blast
      have "bulk_log (dcoll st') = bulk_log (dcoll st) @ (calls1 @ calls2)"
        using c1(2) c2(2) l1(2) by simp
      moreover have "\<forall>call \<in> set (calls1 @ calls2). int (length (fst call)) = bs"
        using c1(3) c2(3) full by auto
      ultimately show ?thesis using c2(1) by blast
    next
      case noflush: False
      with Cons.prems(1) False have "diff_loop keys bs now cs st1 = (st', e)"
        by (simp add: key_of_def Let_def st1_def)
      moreover from noflush have "int (length (batch st1)) < bs" by simp
      ultimately show ?thesis
        using Cons.IH [of st1 st' e] Cons.prems(2) l1(2) by simp
    qed
  qed
qed

lemma insertDiffClaims_sizes:
  assumes "insertDiffClaims coll cs keys bs now = (st, e)"
    and "bulk_log (dcoll st) = bulk_log coll @ calls"
  shows "\<forall>call \<in> set calls.
      0 < length (fst call) \<and> int (length (fst call)) \<le> (if bs \<le> 0 then 2000 else bs)"
proof (cases "cs = []")
  case True
  with assms(1) have "dcoll st = coll" by (auto simp: insertDiffClaims_def)
  with assms(2) have "calls = []" by simp
  then show ?thesis by simp
next
  case False
  define st0 where "st0 = \<lparr>dcoll = coll, batch = [], inserted = 0, prepared = 0, warnings = 0\<rparr>"
  define bs' where "bs' = (if bs \<le> 0 then 2000 else bs)"
  have pos: "0 < bs'" by (simp add: bs'_def)
  obtain st1 e1 where l: "diff_loop keys bs' now cs st0 = (st1, e1)"
    by (cases "diff_loop keys bs' now cs st0")
  from diff_loop_effect [OF l] have e1: "e1 = None" by simp
  have "int (length (batch st0)) < bs'" using pos by (simp add: st0_def)
  from diff_loop_sizes [OF l pos this] obtain calls1 where c1:
    "int (length (batch st1)) < bs'"
    "bulk_log (dcoll st1) = bulk_log (dcoll st0) @ calls1"
    "\<forall>call \<in> set calls1. int (length (fst call)) = bs'" by blast
  obtain st2 e2 where f: "flushBatch st1 = (st2, e2)" by (cases "flushBatch st1")
  from flushBatch_effect [OF f] have e2: "e2 = None" and eff: "diff_effect st1 [] st2"
    by simp_all
  from flushBatch_sizes [OF f] obtain calls2 where c2:
    "bulk_log (dcoll st2) = bulk_log (dcoll st1) @ calls2"
    "\<forall>call \<in> set calls2. fst call = batch st1" by blast
  from eff c2(1) have ne: "[] \<notin> set (map fst calls2)"
    unfolding diff_effect_def by auto
  from assms(1) False l f e1 e2 have "st = st2"
    by (simp add: insertDiffClaims_def Let_def st0_def bs'_def)
  with assms(2) c1(2) c2(1) have calls: "calls = calls1 @ calls2" by (simp add: st0_def)
  have "0 < length (fst call) \<and> int (length (fst call)) \<le> bs'" if "call \<in> set calls" for call
  proof (cases "call \<in> set calls1")
    case True
    with c1(3) pos show ?thesis by auto
  next
    case False
    with that calls have m: "call \<in> set calls2" by simp
    with c2(2) have "fst call = batch st1" by simp
    moreover from m ne have "fst call \<noteq> []" by force
    ultimately show ?thesis using c1(1) by simp
  qed
  then show ?thesis unfolding bs'_def by blast
qed

subsection \<open>Failing batches\<close>

text \<open>
  Claim C6, as stated, fails: the upserts of a batch whose bulk write reports an error
  are credited. In the run below the store rejects the second operation of the only
  batch; \<^verbatim>\<open>BulkWrite\<close> returns an error together with a result counting one upsert, and
  the run reports one claim added.
\<close>

theorem batch_failure_counterexample:
  "map call_failed (bulk_log (run_coll (runFromTodayDumpOnce sample_env sample_api partly_failing_coll 2000)))
     = [True]
   \<and> added (runFromTodayDumpOnce sample_env sample_api partly_failing_coll 2000) = 1
   \<and> docs (run_coll (runFromTodayDumpOnce sample_env sample_api partly_failing_coll 2000)) = [docA]"
proof -
  have f: "first_stat sample_env = StatOK 100" "insert_time sample_env = 7"
    "remove_fault sample_env = None"
    by (simp_all add: sample_env_def)
  have k: "loadAllClaimKeysFromDB partly_failing_coll = Inr {}"
    by (simp add: loadAllClaimKeysFromDB_def partly_failing_coll_def empty_coll_def)
  have "runFromTodayDumpOnce sample_env sample_api partly_failing_coll 2000 =
     \<lparr>run_err = None,
      run_coll = \<lparr>docs = [docA], faults = [], read_fault = None,
          bulk_log = [([upsert_model docA, upsert_model docB], Some \<lparr>UpsertedCount = 1\<rparr>,
                       Some (LibError ''bulk write exception''))]\<rparr>,
      steps = [QueryChain, ParseFile, LoadKeys, InsertDiff, RemoveFile],
      file_removed = True, added = 1\<rparr>"
    by (simp add: runFromTodayDumpOnce_def f sample_stable sample_active sample_claims k
        partly_insert)
  then show ?thesis by (simp add: call_failed_def)
qed

text \<open>
  Claim C6, amended. \<^verbatim>\<open>insertDiffClaims\<close> never returns an error, whatever the bulk
  writes do. Every staged write model is submitted, in order, in one of the bulk writes
  it makes, each of them with at least one and at most \<^verbatim>\<open>bulkSize\<close> models (2000 when
  \<^verbatim>\<open>bulkSize\<close> is not positive), so a failing batch does not keep the later ones from
  being written. Each bulk
  write that reports an error is logged once. The count it returns is the sum, over all
  its bulk writes, failed ones included, of the upsert count in the result (nothing for a
  bulk write that came back without a result), and it never exceeds the number of
  documents actually added. A run that reaches the insert step returns no error and goes
  on to remove the file.
\<close>

theorem batch_failure_containment:
  assumes "insertDiffClaims coll cs keys bs now = (st, e)"
  shows "e = None
     \<and> (\<exists>calls new.
          bulk_log (dcoll st) = bulk_log coll @ calls
          \<and> concat (map fst calls) = staged keys now cs
          \<and> (\<forall>call \<in> set calls.
                0 < length (fst call)
                \<and> int (length (fst call)) \<le> (if bs \<le> 0 then 2000 else bs))
          \<and> docs (dcoll st) = docs coll @ new
          \<and> inserted st = sum_list (map credited calls)
          \<and> inserted st \<le> int (length new)
          \<and> warnings st = length (filter call_failed calls))
     \<and> (InsertDiff \<in> set (steps (runFromTodayDumpOnce env api coll' bs')) \<longrightarrow>
          run_err (runFromTodayDumpOnce env api coll' bs') = None
          \<and> RemoveFile \<in> set (steps (runFromTodayDumpOnce env api coll' bs')))"
proof -
  from insertDiffClaims_effect [OF assms] have e: "e = None" and b: "batch st = []"
    and eff: "diff_effect \<lparr>dcoll = coll, batch = [], inserted = 0, prepared = 0, warnings = 0\<rparr>
        (staged keys now cs) st" by simp_all
  from eff obtain calls new where c:
    "bulk_log (dcoll st) = bulk_log coll @ calls"
    "concat (map fst calls) @ batch st = staged keys now cs"
    "docs (dcoll st) = docs coll @ new"
    "inserted st = sum_list (map credited calls)"
    "sum_list (map credited calls) \<le> int (length new)"
    "warnings st = length (filter call_failed calls)"
    unfolding diff_effect_def by auto
  note sz = insertDiffClaims_sizes [OF assms c(1)]
  from c b sz have 1: "\<exists>calls new.
          bulk_log (dcoll st) = bulk_log coll @ calls
          \<and> concat (map fst calls) = staged keys now cs
          \<and> (\<forall>call \<in> set calls.
                0 < length (fst call)
                \<and> int (length (fst call)) \<le> (if bs \<le> 0 then 2000 else bs))
          \<and> docs (dcoll st) = docs coll @ new
          \<and> inserted st = sum_list (map credited calls)
          \<and> inserted st \<le> int (length new)
          \<and> warnings st = length (filter call_failed calls)"
    by (intro exI [of _ calls] exI [of _ new]) simp
  have 2: "run_err (runFromTodayDumpOnce env api coll' bs') = None
          \<and> RemoveFile \<in> set (steps (runFromTodayDumpOnce env api coll' bs'))"
    if i: "InsertDiff \<in> set (steps (runFromTodayDumpOnce env api coll' bs'))"
  proof -
    from run_cases [of env api coll' bs']
    consider e' ss where "runFromTodayDumpOnce env api coll' bs' = untouched e' coll' ss"
        "ss \<in> {[], [QueryChain], [QueryChain, ParseFile], [QueryChain, ParseFile, LoadKeys]}"
      | s0 A rpc where "first_stat env = StatOK s0" "stability_loop (restat env) 0 s0 = Inr True"
          "loadActiveProviders api = Inr A" "A \<noteq> {}" "dump env = Decoded rpc"
          "read_fault coll' = None"
      by blast
    then show ?thesis
    proof cases
      case 1
      with i show ?thesis by (auto simp: untouched_def)
    next
      case 2
      from run_ingest [OF 2, of bs'] show ?thesis by auto
    qed
  qed
  from e 1 2 show ?thesis by blast
qed

theorem batch_failure_containment_witness:
  "insertDiffClaims partly_failing_coll [docA\<lparr>UpdatedAt := 5\<rparr>, docB\<lparr>UpdatedAt := 5\<rparr>] {} 2000 7 =
     (\<lparr>dcoll = \<lparr>docs = [docA], faults = [], read_fault = None,
          bulk_log = [([upsert_model docA, upsert_model docB], Some \<lparr>UpsertedCount = 1\<rparr>,
                       Some (LibError ''bulk write exception''))]\<rparr>,
        batch = [], inserted = 1, prepared = 2, warnings = 1\<rparr>, None)
   \<and> insertDiffClaims unreachable_coll [docA\<lparr>UpdatedAt := 5\<rparr>, docB\<lparr>UpdatedAt := 5\<rparr>] {} 1 7 =
     (\<lparr>dcoll = \<lparr>docs = [docB], faults = [], read_fault = None,
          bulk_log = [([upsert_model docA], None, Some (LibError ''bulk write exception'')),
                      ([upsert_model docB], Some \<lparr>UpsertedCount = 1\<rparr>, None)]\<rparr>,
        batch = [], inserted = 1, prepared = 2, warnings = 1\<rparr>, None)
   \<and> run_err (runFromTodayDumpOnce sample_env sample_api partly_failing_coll 2000) = None"
proof -
  have f: "first_stat sample_env = StatOK 100" "dump sample_env = Decoded sample_rpc"
    by (simp_all add: sample_env_def)
  have ne: "{1001 :: uint64} \<noteq> {}" by simp
  have rf: "read_fault partly_failing_coll = None"
    by (simp add: partly_failing_coll_def empty_coll_def)
  from run_ingest [OF f(1) sample_stable sample_active ne f(2) rf, of 2000]
  have i: "InsertDiff \<in> set (steps (runFromTodayDumpOnce sample_env sample_api partly_failing_coll 2000))"
    by auto
  from batch_failure_containment [OF partly_insert, where env = sample_env and api = sample_api
      and coll' = partly_failing_coll and bs' = 2000] i
  have "run_err (runFromTodayDumpOnce sample_env sample_api partly_failing_coll 2000) = None"
    by blast
  with partly_insert two_batches show ?thesis by simp
qed

subsection \<open>Running twice on the same dump\<close>

text \<open>
  Claim C1, as stated, fails, in two ways. In the first pair of runs below the store rejects
  both operations of the only bulk write of the first run: the run writes nothing, reports
  zero added and still returns no error; \<^verbatim>\<open>os.Remove\<close> fails, so the dump file stays.
  The second run, on the same dump and with the same active providers, inserts both claims.
  In the second pair the first run cannot read the stored keys: it returns that error
  without a single bulk write and leaves the dump file and the empty store as they were.
  The second run, on the same dump, the same store and the same active providers, reads
  the keys and inserts both claims.
\<close>

theorem idempotence_counterexample:
  "run_err (runFromTodayDumpOnce kept_env sample_api failing_coll 2000) = None
   \<and> added (runFromTodayDumpOnce kept_env sample_api failing_coll 2000) = 0
   \<and> \<not> file_removed (runFromTodayDumpOnce kept_env sample_api failing_coll 2000)
   \<and> added (runFromTodayDumpOnce kept_env sample_api
        (run_coll (runFromTodayDumpOnce kept_env sample_api failing_coll 2000)) 2000) = 2
   \<and> runFromTodayDumpOnce sample_env sample_api unreadable_coll 2000
        = untouched (Some (Wrapped ''load db keys'' (LibError ''cursor error''))) unreadable_coll
            [QueryChain, ParseFile, LoadKeys]
   \<and> docs empty_coll = docs unreadable_coll
   \<and> added (runFromTodayDumpOnce sample_env sample_api empty_coll 2000) = 2"
proof -
  have f: "first_stat kept_env = StatOK 100" "insert_time kept_env = 7"
    "remove_fault kept_env = Some (LibError ''remove failed'')"
    by (simp_all add: kept_env_def sample_env_def)
  have g: "restat kept_env = restat sample_env" "sscan kept_env = sscan sample_env"
    "dump kept_env = dump sample_env" "parse_time kept_env = parse_time sample_env"
    by (simp_all add: kept_env_def)
  have k: "loadAllClaimKeysFromDB failing_coll = Inr {}"
    by (simp add: loadAllClaimKeysFromDB_def failing_coll_def empty_coll_def)
  define coll1 where "coll1 = \<lparr>docs = [], faults = [], read_fault = None,
          bulk_log = [([upsert_model docA, upsert_model docB], Some \<lparr>UpsertedCount = 0\<rparr>,
                       Some (LibError ''bulk write exception''))]\<rparr>"
  have r1: "runFromTodayDumpOnce kept_env sample_api failing_coll 2000 =
     \<lparr>run_err = None, run_coll = coll1,
      steps = [QueryChain, ParseFile, LoadKeys, InsertDiff, RemoveFile],
      file_removed = False, added = 0\<rparr>"
    by (simp add: runFromTodayDumpOnce_def f g sample_stable sample_active sample_claims k
        failing_insert coll1_def)
  have k1: "loadAllClaimKeysFromDB coll1 = Inr {}"
    by (simp add: loadAllClaimKeysFromDB_def coll1_def)
  have r2: "added (runFromTodayDumpOnce kept_env sample_api coll1 2000) = 2"
    by (simp add: runFromTodayDumpOnce_def f g sample_stable sample_active sample_claims k1
        second_insert_after_failure [folded coll1_def])
  have fs: "first_stat sample_env = StatOK 100"
    by (simp add: sample_env_def)
  have ku: "loadAllClaimKeysFromDB unreadable_coll = Inl (LibError ''cursor error'')"
    by (simp add: loadAllClaimKeysFromDB_def unreadable_coll_def empty_coll_def)
  have u1: "runFromTodayDumpOnce sample_env sample_api unreadable_coll 2000
        = untouched (Some (Wrapped ''load db keys'' (LibError ''cursor error''))) unreadable_coll
            [QueryChain, ParseFile, LoadKeys]"
    by (simp add: runFromTodayDumpOnce_def fs sample_stable sample_active sample_claims ku
        untouched_def)
  have u2: "docs empty_coll = docs unreadable_coll"
    by (simp add: unreadable_coll_def)
  have u3: "added (runFromTodayDumpOnce sample_env sample_api empty_coll 2000) = 2"
    by (simp add: sample_run)
  from r1 r2 u1 u2 u3 show ?thesis by simp
qed

text \<open>
  Claim C1, amended. Take a first run that finds a stable dump file, and a second run on
  the store as the first run left its documents, with the same set of active providers and
  the same records decoded from the dump (in any order). If the first run returned no
  error and none of its bulk writes reported an error, the second run inserts nothing: it
  reports zero added and leaves the collection exactly as it found it, without a single
  bulk write. Whatever happened in the first run, no write model staged by the second run
  has a key that was in the store when the first run ended: every such key is found in the
  rebuilt index and the claim is discarded before staging.
\<close>

theorem idempotent_second_run:
  assumes "first_stat env1 = StatOK a1" "stability_loop (restat env1) 0 a1 = Inr True"
    and "loadActiveProviders api1 = Inr A" "loadActiveProviders api2 = Inr A"
    and "dump env1 = Decoded rpc1" "dump env2 = Decoded rpc2"
    and "set (Result rpc2) = set (Result rpc1)"
    and "r1 = runFromTodayDumpOnce env1 api1 coll bs1"
    and "bulk_log (run_coll r1) = bulk_log coll @ calls1"
    and "docs coll2 = docs (run_coll r1)"
    and "r2 = runFromTodayDumpOnce env2 api2 coll2 bs2"
    and "bulk_log (run_coll r2) = bulk_log coll2 @ calls2"
  shows "(run_err r1 = None \<and> (\<forall>call \<in> set calls1. \<not> call_failed call)
            \<longrightarrow> added r2 = 0 \<and> run_coll r2 = coll2)
     \<and> (\<forall>call \<in> set calls2. \<forall>m \<in> set (fst call).
            key_of (SetOnInsert m) \<notin> key_of ` set (docs (run_coll r1)))"
proof
  show "\<forall>call \<in> set calls2. \<forall>m \<in> set (fst call).
            key_of (SetOnInsert m) \<notin> key_of ` set (docs (run_coll r1))"
  proof (rule run_effectE [of env2 api2 coll2 bs2])
    fix calls :: "(UpdateOneModel list \<times> BulkWriteResult option \<times> error option) list"
    assume e: "bulk_log (run_coll (runFromTodayDumpOnce env2 api2 coll2 bs2))
          = bulk_log coll2 @ calls"
      "\<forall>m \<in> set (concat (map fst calls)).
        \<exists>c A. loadActiveProviders api2 = Inr A \<and> ProviderID c \<in> A
          \<and> key_of c \<notin> key_of ` set (docs coll2)
          \<and> m = upsert_model (c\<lparr>UpdatedAt := insert_time env2\<rparr>)"
    from e(1) assms(11,12) have eq: "calls = calls2" by simp
    show ?thesis
    proof (intro ballI)
      fix call m assume "call \<in> set calls2" "m \<in> set (fst call)"
      then have "m \<in> set (concat (map fst calls))" using eq by auto
      with e(2) obtain c where "key_of c \<notin> key_of ` set (docs coll2)"
        "m = upsert_model (c\<lparr>UpdatedAt := insert_time env2\<rparr>)" by blast
      then show "key_of (SetOnInsert m) \<notin> key_of ` set (docs (run_coll r1))"
        using assms(10) by (simp add: upsert_model_def)
    qed
  qed
next
  show "run_err r1 = None \<and> (\<forall>call \<in> set calls1. \<not> call_failed call)
            \<longrightarrow> added r2 = 0 \<and> run_coll r2 = coll2"
  proof
    assume ok: "run_err r1 = None \<and> (\<forall>call \<in> set calls1. \<not> call_failed call)"
    from run_cases [of env2 api2 coll2 bs2]
    consider e ss where "r2 = untouched e coll2 ss"
      | s0 A' rpc' where "first_stat env2 = StatOK s0"
          "stability_loop (restat env2) 0 s0 = Inr True"
          "loadActiveProviders api2 = Inr A'" "A' \<noteq> {}" "dump env2 = Decoded rpc'"
          "read_fault coll2 = None"
      unfolding assms(11) by blast
    then show "added r2 = 0 \<and> run_coll r2 = coll2"
    proof cases
      case 1
      then show ?thesis by (simp add: untouched_def)
    next
      case 2
      from 2(3,5) assms(4,6) have same: "A' = A" "rpc' = rpc2" by simp_all
      with 2(4) have ne: "A \<noteq> {}" by simp
      define cs1 where "cs1 = filter_loop (sscan env1) A (parse_time env1) (Result rpc1)"
      define cs2 where "cs2 = filter_loop (sscan env2) A (parse_time env2) (Result rpc2)"
      have rf: "read_fault coll = None"
      proof (cases "read_fault coll")
        case None
        then show ?thesis .
      next
        case (Some err)
        with assms(1,2,3,5,8) ne have "run_err r1 = Some (Wrapped ''load db keys'' err)"
          by (simp add: runFromTodayDumpOnce_def loadClaimsFromFileFiltered_def
              loadAllClaimKeysFromDB_def)
        with ok show ?thesis by simp
      qed
      from run_ingest [OF assms(1,2,3) ne assms(5) rf, of bs1] obtain st1 where
        i1: "insertDiffClaims coll cs1 (key_of ` set (docs coll)) bs1 (insert_time env1) = (st1, None)"
        and c1: "run_coll r1 = dcoll st1"
        unfolding cs1_def assms(8) by auto
      from assms(9) c1 have l1: "bulk_log (dcoll st1) = bulk_log coll @ calls1" by simp
      from ok have g1: "\<forall>call \<in> set calls1. \<not> call_failed call" by simp
      from insertDiffClaims_covers [OF i1 l1 g1] have cov:
        "set (docs coll) \<subseteq> set (docs (dcoll st1))"
        "key_of ` set cs1 \<subseteq> key_of ` set (docs coll) \<union> key_of ` set (docs (dcoll st1))"
        by simp_all
      have "key_of ` set (docs coll) \<subseteq> key_of ` set (docs (dcoll st1))"
        using cov(1) by (rule image_mono)
      with cov(2) have k1: "key_of ` set cs1 \<subseteq> key_of ` set (docs coll2)"
        unfolding assms(10) c1 by blast
      have "key_of ` set cs2 \<subseteq> key_of ` set cs1"
        unfolding cs1_def cs2_def using assms(7) by (intro filter_loop_keys_mono) simp
      with k1 have known: "\<And>c. c \<in> set cs2 \<Longrightarrow> key_of c \<in> key_of ` set (docs coll2)"
        by blast
      from run_ingest [OF 2(1,2) assms(4) ne assms(6) 2(6), of bs2] obtain st2 where
        i2: "insertDiffClaims coll2 cs2 (key_of ` set (docs coll2)) bs2
              (insert_time env2) = (st2, None)"
        and r2: "run_coll r2 = dcoll st2" "added r2 = inserted st2"
        unfolding cs2_def assms(11) by auto
      from insertDiffClaims_all_known [of cs2 "key_of ` set (docs coll2)", OF known] i2
      have "st2 = \<lparr>dcoll = coll2, batch = [], inserted = 0, prepared = 0, warnings = 0\<rparr>"
        by simp
      with r2 show ?thesis by simp
    qed
  qed
qed

theorem idempotent_second_run_witness:
  "run_err (runFromTodayDumpOnce kept_env sample_api empty_coll 2000) = None
   \<and> bulk_log (run_coll (runFromTodayDumpOnce kept_env sample_api empty_coll 2000))
      = [([upsert_model docA, upsert_model docB], Some \<lparr>UpsertedCount = 2\<rparr>, None)]
   \<and> added (runFromTodayDumpOnce kept_env sample_api empty_coll 2000) = 2
   \<and> \<not> file_removed (runFromTodayDumpOnce kept_env sample_api empty_coll 2000)
   \<and> added (runFromTodayDumpOnce kept_env sample_api
        (run_coll (runFromTodayDumpOnce kept_env sample_api empty_coll 2000)) 2000) = 0
   \<and> run_coll (runFromTodayDumpOnce kept_env sample_api
        (run_coll (runFromTodayDumpOnce kept_env sample_api empty_coll 2000)) 2000)
      = run_coll (runFromTodayDumpOnce kept_env sample_api empty_coll 2000)"
proof -
  define r1 where "r1 = runFromTodayDumpOnce kept_env sample_api empty_coll 2000"
  define r2 where "r2 = runFromTodayDumpOnce kept_env sample_api (run_coll r1) 2000"
  have f: "first_stat kept_env = StatOK 100" "dump kept_env = Decoded sample_rpc"
    "insert_time kept_env = 7" "remove_fault kept_env = Some (LibError ''remove failed'')"
    by (simp_all add: kept_env_def sample_env_def)
  have g: "restat kept_env = restat sample_env" "sscan kept_env = sscan sample_env"
    "dump kept_env = dump sample_env" "parse_time kept_env = parse_time sample_env"
    by (simp_all add: kept_env_def)
  have st: "stability_loop (restat kept_env) 0 100 = Inr True"
    using sample_stable by (simp add: g)
  have k: "loadAllClaimKeysFromDB empty_coll = Inr {}"
    by (simp add: loadAllClaimKeysFromDB_def empty_coll_def)
  have v1: "r1 = \<lparr>run_err = None,
      run_coll = \<lparr>docs = [docA, docB], faults = [], read_fault = None,
          bulk_log = [([upsert_model docA, upsert_model docB], Some \<lparr>UpsertedCount = 2\<rparr>, None)]\<rparr>,
      steps = [QueryChain, ParseFile, LoadKeys, InsertDiff, RemoveFile],
      file_removed = False, added = 2\<rparr>"
    unfolding r1_def
    by (simp add: runFromTodayDumpOnce_def f(1,3,4) g sample_stable sample_active sample_claims k
        sample_insert_empty)
  have l1: "bulk_log (run_coll r1) = bulk_log empty_coll
      @ [([upsert_model docA, upsert_model docB], Some \<lparr>UpsertedCount = 2\<rparr>, None)]"
    by (simp add: v1 empty_coll_def)
  have l2: "bulk_log (run_coll r2)
      = bulk_log (run_coll r1) @ drop (length (bulk_log (run_coll r1))) (bulk_log (run_coll r2))"
  proof (rule run_effectE [of kept_env sample_api "run_coll r1" 2000])
    fix calls :: "(UpdateOneModel list \<times> BulkWriteResult option \<times> error option) list"
    assume "bulk_log (run_coll (runFromTodayDumpOnce kept_env sample_api (run_coll r1) 2000))
          = bulk_log (run_coll r1) @ calls"
    then show ?thesis by (simp add: r2_def)
  qed
  have s: "set (Result sample_rpc) = set (Result sample_rpc)" by simp
  have d: "docs (run_coll r1) = docs (run_coll r1)" by simp
  have ok: "run_err r1 = None" by (simp add: v1)
  from idempotent_second_run [OF f(1) st sample_active sample_active
      f(2) f(2) s r1_def l1 d r2_def l2, THEN conjunct1] ok
  have "added r2 = 0 \<and> run_coll r2 = run_coll r1" by (simp add: call_failed_def)
  moreover from v1 have "run_err r1 = None" "added r1 = 2" "\<not> file_removed r1"
    "bulk_log (run_coll r1)
      = [([upsert_model docA, upsert_model docB], Some \<lparr>UpsertedCount = 2\<rparr>, None)]"
    by simp_all
  ultimately show ?thesis unfolding r2_def r1_def by simp
qed

end
